theory Spec2Isabelle
  imports Main "HOL-Library.AList" "HOL-Library.Multiset" "HOL-Library.Sublist"
begin

section \<open>The summary table of the command line tool\<close>

text \<open>
  \<^verbatim>\<open>lint.LintStatus\<close> is an integer type: the tool converts it with \<^verbatim>\<open>int(i)\<close> and
  \<^verbatim>\<open>lint.LintStatus(level)\<close> and compares it with \<^verbatim>\<open><=\<close> and \<^verbatim>\<open>>\<close>. No arithmetic is
  done on a status, so it is an unbounded \<open>int\<close> here.
\<close>

type_synonym LintStatus = int

text \<open>
  \<^verbatim>\<open>zlint.ResultSet.Results\<close> maps a lint name to a \<^verbatim>\<open>*lint.LintResult\<close>; only the
  field \<^verbatim>\<open>Status\<close> is read. The engine stores a result for every lint it runs: no
  entry is the nil pointer.
\<close>

record LintResult =
  Status :: LintStatus

text \<open>
  A Go map is an association list with distinct keys. A \<^verbatim>\<open>range\<close> over a map visits its
  entries in an order the runtime chooses, so:
  \<^item> a map that comes in from outside (\<^verbatim>\<open>lint.StatusLabelToLintStatus\<close>, which is not
    declared in the sources and is a parameter here, and \<^verbatim>\<open>results.Results\<close>) is given
    as the list of its entries in the order the \<^verbatim>\<open>range\<close> statement visits them;
  \<^item> for a map that \<^verbatim>\<open>newRT\<close> builds itself the order is chosen by the parameter
    \<open>rng\<close>, which stands for the runtime and returns the entries of the map in the
    order of the visit.
\<close>

record resultsTable =
  resultCount :: "(LintStatus \<times> int) list"
  resultDetails :: "(LintStatus \<times> string list) list"
  lintLevelsAboveThreshold :: "(int \<times> LintStatus) list"
  sortedLevels :: "int list"

text \<open>Reading a key that a Go map does not hold gives the zero value of the value type.\<close>

definition countAt :: "(LintStatus \<times> int) list \<Rightarrow> LintStatus \<Rightarrow> int" where
  "countAt rc s = (case map_of rc s of None \<Rightarrow> 0 | Some n \<Rightarrow> n)"

definition detailsAt :: "(LintStatus \<times> string list) list \<Rightarrow> LintStatus \<Rightarrow> string list" where
  "detailsAt rd s = (case map_of rd s of None \<Rightarrow> [] | Some ns \<Rightarrow> ns)"

text \<open>The loop over \<^verbatim>\<open>lint.StatusLabelToLintStatus\<close>: the levels that matter.\<close>

fun levelsLoop ::
  "LintStatus \<Rightarrow> (string \<times> LintStatus) list \<Rightarrow> (int \<times> LintStatus) list \<Rightarrow> (int \<times> LintStatus) list"
where
  "levelsLoop threshold [] lv = lv"
| "levelsLoop threshold ((label, i) # rest) lv =
     (if i \<le> threshold then levelsLoop threshold rest lv
      else levelsLoop threshold rest (AList.update i i lv))"

text \<open>The loop over \<^verbatim>\<open>r.lintLevelsAboveThreshold\<close>: every level starts at 0 events.\<close>

fun zeroLoop :: "(int \<times> LintStatus) list \<Rightarrow> (LintStatus \<times> int) list \<Rightarrow> (LintStatus \<times> int) list" where
  "zeroLoop [] rc = rc"
| "zeroLoop ((k, level) # rest) rc = zeroLoop rest (AList.update level 0 rc)"

text \<open>The loop over \<^verbatim>\<open>results.Results\<close>: count the events, and keep the names when asked.\<close>

fun countLoop ::
  "LintStatus \<Rightarrow> bool \<Rightarrow> (string \<times> LintResult) list \<Rightarrow>
   (LintStatus \<times> int) list \<times> (LintStatus \<times> string list) list \<Rightarrow>
   (LintStatus \<times> int) list \<times> (LintStatus \<times> string list) list"
where
  "countLoop threshold longSummary [] (rc, rd) = (rc, rd)"
| "countLoop threshold longSummary ((lintName, lintResult) # rest) (rc, rd) =
     (if Status lintResult > threshold then
        countLoop threshold longSummary rest
          (AList.update (Status lintResult) (countAt rc (Status lintResult) + 1) rc,
           if longSummary
           then AList.update (Status lintResult) (detailsAt rd (Status lintResult) @ [lintName]) rd
           else rd)
      else countLoop threshold longSummary rest (rc, rd))"

text \<open>The loop over the keys of \<^verbatim>\<open>r.resultCount\<close>.\<close>

fun keysLoop :: "(LintStatus \<times> int) list \<Rightarrow> int list \<Rightarrow> int list" where
  "keysLoop [] sl = sl"
| "keysLoop ((key, n) # rest) sl = keysLoop rest (sl @ [key])"

text \<open>
  \<^verbatim>\<open>func (r resultsTable) newRT(threshold, results, longSummary) resultsTable\<close>. The
  receiver \<open>r\<close> is a copy; the three maps are made afresh, \<^verbatim>\<open>sortedLevels\<close> is appended to
  as the receiver holds it and then sorted by \<^verbatim>\<open>sort.Ints\<close>.
\<close>

definition newRT ::
  "((int \<times> int) list \<Rightarrow> (int \<times> int) list) \<Rightarrow> (string \<times> LintStatus) list \<Rightarrow>
   resultsTable \<Rightarrow> LintStatus \<Rightarrow> (string \<times> LintResult) list \<Rightarrow> bool \<Rightarrow> resultsTable"
where
  "newRT rng StatusLabelToLintStatus r threshold results longSummary =
     (let lv = levelsLoop threshold StatusLabelToLintStatus [];
          rc0 = zeroLoop (rng lv) [];
          cd = countLoop threshold longSummary results (rc0, []);
          sl = keysLoop (rng (fst cd)) (sortedLevels r)
      in r\<lparr> resultCount := fst cd, resultDetails := snd cd,
            lintLevelsAboveThreshold := lv, sortedLevels := sort sl \<rparr>)"

text \<open>The zero value \<^verbatim>\<open>resultsTable{}\<close>, the receiver of the only call.\<close>

definition emptyRT :: resultsTable where
  "emptyRT = \<lparr> resultCount = [], resultDetails = [], lintLevelsAboveThreshold = [], sortedLevels = [] \<rparr>"

text \<open>The results of a set that bear the status \<open>s\<close>, and their number.\<close>

definition withStatus :: "LintStatus \<Rightarrow> (string \<times> LintResult) list \<Rightarrow> (string \<times> LintResult) list" where
  "withStatus s results = filter (\<lambda>(n, res). Status res = s) results"

definition statuses :: "(string \<times> LintResult) list \<Rightarrow> LintStatus set" where
  "statuses results = (\<lambda>(n, res). Status res) ` set results"

definition levels :: "(string \<times> LintStatus) list \<Rightarrow> LintStatus set" where
  "levels tbl = snd ` set tbl"

text \<open>
  The runtime visits every entry of a map once: \<open>rng\<close> returns a permutation of the
  entries.
\<close>

definition visitsAll :: "((int \<times> int) list \<Rightarrow> (int \<times> int) list) \<Rightarrow> bool" where
  "visitsAll rng = (\<forall>m. mset (rng m) = mset m)"

text \<open>
  A table of eight levels and a result set, to run the summary on: two errors, a warning,
  a pass and a result below it, for the threshold \<open>3\<close>.
\<close>

definition exampleTable :: "(string \<times> LintStatus) list" where
  "exampleTable = [(''pass'', 3), (''notice'', 4), (''warn'', 5), (''error'', 6), (''fatal'', 7),
     (''reserved'', 0), (''NA'', 1), (''NE'', 2)]"

definition exampleResults :: "(string \<times> LintResult) list" where
  "exampleResults = [(''e_a'', \<lparr>Status = 6\<rparr>), (''p_b'', \<lparr>Status = 3\<rparr>),
     (''e_c'', \<lparr>Status = 6\<rparr>), (''w_d'', \<lparr>Status = 5\<rparr>), (''n_e'', \<lparr>Status = 1\<rparr>)]"

section \<open>Splitting and trimming the flag values\<close>

text \<open>
  A Go string is a sequence of bytes: a \<open>string\<close>. \<^verbatim>\<open>strings.Split(s, ",")\<close> of the Go
  library returns the substrings of \<open>s\<close> between the separators; the separator of the only
  call is the one byte \<^verbatim>\<open>","\<close>. \<open>cur\<close> is the substring since the last separator.
\<close>

fun splitFrom :: "string \<Rightarrow> char \<Rightarrow> string \<Rightarrow> string list" where
  "splitFrom [] sep cur = [cur]"
| "splitFrom (c # cs) sep cur =
     (if c = sep then cur # splitFrom cs sep [] else splitFrom cs sep (cur @ [c]))"

definition Split :: "string \<Rightarrow> char \<Rightarrow> string list" where
  "Split s sep = splitFrom s sep []"

text \<open>\<^verbatim>\<open>strings.Join\<close>, to say what the segments of a string are.\<close>

fun Join :: "string list \<Rightarrow> char \<Rightarrow> string" where
  "Join [] sep = []"
| "Join [x] sep = x"
| "Join (x # y # ys) sep = x @ sep # Join (y # ys) sep"

text \<open>
  \<^verbatim>\<open>strings.TrimSpace\<close> of the Go library removes the leading and the trailing white
  space, as Unicode defines it (\<^verbatim>\<open>unicode.IsSpace\<close>): the runes U+0009 to U+000D, U+0020,
  U+0085, U+00A0, U+1680, U+2000 to U+200A, U+2028, U+2029, U+202F, U+205F and U+3000.
  \<open>spaces\<close> lists their UTF-8 encodings. A rune is decoded from the front of the string,
  or from its back: the first (last) rune is white space when one of these encodings is a
  prefix (suffix) of the string.
\<close>

definition spaces :: "string list" where
  "spaces =
     [[CHR 0x09], [CHR 0x0A], [CHR 0x0B], [CHR 0x0C], [CHR 0x0D], [CHR 0x20],
      [CHR 0xC2, CHR 0x85], [CHR 0xC2, CHR 0xA0],
      [CHR 0xE1, CHR 0x9A, CHR 0x80],
      [CHR 0xE2, CHR 0x80, CHR 0x80], [CHR 0xE2, CHR 0x80, CHR 0x81],
      [CHR 0xE2, CHR 0x80, CHR 0x82], [CHR 0xE2, CHR 0x80, CHR 0x83],
      [CHR 0xE2, CHR 0x80, CHR 0x84], [CHR 0xE2, CHR 0x80, CHR 0x85],
      [CHR 0xE2, CHR 0x80, CHR 0x86], [CHR 0xE2, CHR 0x80, CHR 0x87],
      [CHR 0xE2, CHR 0x80, CHR 0x88], [CHR 0xE2, CHR 0x80, CHR 0x89],
      [CHR 0xE2, CHR 0x80, CHR 0x8A],
      [CHR 0xE2, CHR 0x80, CHR 0xA8], [CHR 0xE2, CHR 0x80, CHR 0xA9],
      [CHR 0xE2, CHR 0x80, CHR 0xAF],
      [CHR 0xE2, CHR 0x81, CHR 0x9F],
      [CHR 0xE3, CHR 0x80, CHR 0x80]]"

text \<open>The width of the white space rune at the front (at the back), 0 when there is none.\<close>

definition spaceAtFront :: "string \<Rightarrow> nat" where
  "spaceAtFront s = (case find (\<lambda>w. prefix w s) spaces of None \<Rightarrow> 0 | Some w \<Rightarrow> length w)"

definition spaceAtBack :: "string \<Rightarrow> nat" where
  "spaceAtBack s = (case find (\<lambda>w. suffix w s) spaces of None \<Rightarrow> 0 | Some w \<Rightarrow> length w)"

function TrimLeft :: "string \<Rightarrow> string" where
  "TrimLeft s = (if spaceAtFront s = 0 then s else TrimLeft (drop (spaceAtFront s) s))"
  by pat_completeness auto
termination
proof (relation "measure length")
  show "wf (measure length)" by simp
next
  fix s :: string
  assume "spaceAtFront s \<noteq> 0"
  moreover have "spaceAtFront s \<le> length s"
    by (auto simp: spaceAtFront_def find_Some_iff split: option.splits intro: prefix_length_le)
  ultimately show "(drop (spaceAtFront s) s, s) \<in> measure length" by simp
qed

function TrimRight :: "string \<Rightarrow> string" where
  "TrimRight s = (if spaceAtBack s = 0 then s else TrimRight (take (length s - spaceAtBack s) s))"
  by pat_completeness auto
termination
proof (relation "measure length")
  show "wf (measure length)" by simp
next
  fix s :: string
  assume "spaceAtBack s \<noteq> 0"
  moreover have "spaceAtBack s \<le> length s"
    by (auto simp: spaceAtBack_def find_Some_iff split: option.splits intro: suffix_length_le)
  ultimately show "(take (length s - spaceAtBack s) s, s) \<in> measure length" by simp
qed

definition TrimSpace :: "string \<Rightarrow> string" where
  "TrimSpace s = TrimRight (TrimLeft s)"

text \<open>A string made of white space runes only.\<close>

inductive_set spaceRuns :: "string set" where
  empty: "[] \<in> spaceRuns"
| front: "w \<in> set spaces \<Longrightarrow> a \<in> spaceRuns \<Longrightarrow> w @ a \<in> spaceRuns"

text \<open>
  \<^verbatim>\<open>func trimmedList(raw string) []string\<close>: the loop appends the trimmed items to
  \<open>list\<close>, which starts as the nil slice.
\<close>

fun trimmedLoop :: "string list \<Rightarrow> string list \<Rightarrow> string list" where
  "trimmedLoop [] list = list"
| "trimmedLoop (item # rest) list = trimmedLoop rest (list @ [TrimSpace item])"

definition trimmedList :: "string \<Rightarrow> string list" where
  "trimmedList raw = trimmedLoop (Split raw (CHR '','')) []"

section \<open>Configuring the registry from the flags\<close>

text \<open>The flags of the tool, package-level variables that \<^verbatim>\<open>setLints\<close> reads.\<close>

record flags =
  nameFilter :: string
  includeNames :: string
  excludeNames :: string
  includeSources :: string
  excludeSources :: string

text \<open>
  A Go \<^verbatim>\<open>error\<close> is its message. A function of the tool returns, or ends the process
  (\<^verbatim>\<open>log.Fatalf\<close>), or panics.
\<close>

type_synonym error = string

datatype 'a outcome = Return 'a | Exit string | Panic

text \<open>
  Modelled from the spec: the rule metadata and the registry of package \<^verbatim>\<open>lint\<close>, which
  are not among the sources. Of the metadata the filter reads the unique name and the
  provenance; a registry is the list of its entries.
\<close>

record LintMeta =
  ruleName :: string
  provenance :: string

type_synonym Registry = "LintMeta list"

text \<open>
  \<^verbatim>\<open>lint.FilterOptions\<close>, with the fields that \<^verbatim>\<open>setLints\<close> assigns. Its zero value has
  no name filter and nil lists. \<open>'re\<close> is the type of a compiled regular expression.
\<close>

record 're FilterOptions =
  NameFilter :: "'re option"
  ExcludeNames :: "string list"
  IncludeNames :: "string list"
  ExcludeSources :: "string list"
  IncludeSources :: "string list"

definition noFilterOptions :: "'re FilterOptions" where
  "noFilterOptions = \<lparr> NameFilter = None, ExcludeNames = [], IncludeNames = [],
     ExcludeSources = [], IncludeSources = [] \<rparr>"

text \<open>
  Modelled from the spec: \<^verbatim>\<open>Registry.Filter\<close> of package \<^verbatim>\<open>lint\<close>, which is not among
  the sources. With a name filter a rule is kept when its name matches, and this mode
  excludes the include and exclude name lists: a configuration error if both are
  supplied. Otherwise all rules are kept, then only those of a non-empty include-name
  list, then only those of a non-empty include-source set, then the rules of the
  exclude-name list and those of the exclude-source set are removed. \<open>matches\<close> is the
  matching of a compiled regular expression against a name.
\<close>

definition keeps :: "('re \<Rightarrow> string \<Rightarrow> bool) \<Rightarrow> 're FilterOptions \<Rightarrow> LintMeta \<Rightarrow> bool" where
  "keeps matches opts l =
     (case NameFilter opts of
        Some re \<Rightarrow> matches re (ruleName l)
      | None \<Rightarrow>
          (IncludeNames opts = [] \<or> ruleName l \<in> set (IncludeNames opts)) \<and>
          (IncludeSources opts = [] \<or> provenance l \<in> set (IncludeSources opts)) \<and>
          ruleName l \<notin> set (ExcludeNames opts) \<and>
          provenance l \<notin> set (ExcludeSources opts))"

definition Filter ::
  "('re \<Rightarrow> string \<Rightarrow> bool) \<Rightarrow> Registry \<Rightarrow> 're FilterOptions \<Rightarrow> Registry option \<times> error option"
where
  "Filter matches registry opts =
     (if NameFilter opts \<noteq> None \<and> (IncludeNames opts \<noteq> [] \<or> ExcludeNames opts \<noteq> [])
      then (None, Some ''name filter used together with include or exclude names'')
      else (Some (filter (keeps matches opts) registry), None))"

text \<open>
  What \<^verbatim>\<open>setLints\<close> calls and the sources do not hold:
  \<^item> \<open>Compile\<close>: \<^verbatim>\<open>regexp.Compile\<close> of the Go library, the error or the compiled
    expression;
  \<^item> \<open>MatchString\<close>: the matching of a compiled expression;
  \<^item> \<open>FromString\<close>: \<^verbatim>\<open>SourceList.FromString\<close> of package \<^verbatim>\<open>lint\<close>, the error or the
    list it stores in its receiver;
  \<^item> \<open>GlobalRegistry\<close>: the registry that \<^verbatim>\<open>lint.GlobalRegistry()\<close> returns.
\<close>

record 're library =
  Compile :: "string \<Rightarrow> error + 're"
  MatchString :: "'re \<Rightarrow> string \<Rightarrow> bool"
  FromString :: "string \<Rightarrow> error + string list"
  GlobalRegistry :: Registry

text \<open>The branch \<^verbatim>\<open>if nameFilter != ""\<close> of \<^verbatim>\<open>setLints\<close>: the error it returns, or the options.\<close>

definition compileNameFilter ::
  "'re library \<Rightarrow> flags \<Rightarrow> 're FilterOptions \<Rightarrow> error + 're FilterOptions"
where
  "compileNameFilter lib f filterOpts =
     (if nameFilter f \<noteq> [] then
        (case Compile lib (nameFilter f) of
           Inl err \<Rightarrow> Inl (''bad -nameFilter: '' @ err)
         | Inr r \<Rightarrow> Inr (filterOpts\<lparr> NameFilter := Some r \<rparr>))
      else Inr filterOpts)"

text \<open>The two branches that read the source lists end the process on an error.\<close>

definition excludeSourcesBranch ::
  "'re library \<Rightarrow> flags \<Rightarrow> 're FilterOptions \<Rightarrow> 're FilterOptions outcome"
where
  "excludeSourcesBranch lib f filterOpts =
     (if excludeSources f \<noteq> [] then
        (case FromString lib (excludeSources f) of
           Inl err \<Rightarrow> Exit (''invalid -excludeSources: '' @ err)
         | Inr l \<Rightarrow> Return (filterOpts\<lparr> ExcludeSources := l \<rparr>))
      else Return filterOpts)"

definition includeSourcesBranch ::
  "'re library \<Rightarrow> flags \<Rightarrow> 're FilterOptions \<Rightarrow> 're FilterOptions outcome"
where
  "includeSourcesBranch lib f filterOpts =
     (if includeSources f \<noteq> [] then
        (case FromString lib (includeSources f) of
           Inl err \<Rightarrow> Exit (''invalid -includeSources: '' @ err)
         | Inr l \<Rightarrow> Return (filterOpts\<lparr> IncludeSources := l \<rparr>))
      else Return filterOpts)"

definition namesBranches :: "flags \<Rightarrow> 're FilterOptions \<Rightarrow> 're FilterOptions" where
  "namesBranches f filterOpts =
     (let fo = (if excludeNames f \<noteq> []
                then filterOpts\<lparr> ExcludeNames := trimmedList (excludeNames f) \<rparr>
                else filterOpts)
      in if includeNames f \<noteq> []
         then fo\<lparr> IncludeNames := trimmedList (includeNames f) \<rparr>
         else fo)"

text \<open>
  \<^verbatim>\<open>func setLints() (lint.Registry, error)\<close>: the pair it returns, a nil registry being
  \<open>None\<close> and a nil error \<open>None\<close>.
\<close>

definition setLints :: "'re library \<Rightarrow> flags \<Rightarrow> (Registry option \<times> error option) outcome" where
  "setLints lib f =
     (if nameFilter f = [] \<and> includeNames f = [] \<and> excludeNames f = [] \<and>
         includeSources f = [] \<and> excludeSources f = []
      then Return (Some (GlobalRegistry lib), None)
      else
        (case compileNameFilter lib f noFilterOptions of
           Inl err \<Rightarrow> Return (None, Some err)
         | Inr fo1 \<Rightarrow>
             (case excludeSourcesBranch lib f fo1 of
                Exit msg \<Rightarrow> Exit msg
              | Panic \<Rightarrow> Panic
              | Return fo2 \<Rightarrow>
                  (case includeSourcesBranch lib f fo2 of
                     Exit msg \<Rightarrow> Exit msg
                   | Panic \<Rightarrow> Panic
                   | Return fo3 \<Rightarrow>
                       Return (Filter (MatchString lib) (GlobalRegistry lib)
                                 (namesBranches f fo3))))))"

text \<open>
  A library and flag values to run \<^verbatim>\<open>setLints\<close> on: every pattern but \<^verbatim>\<open>[\<close> compiles,
  an expression matches the names it is a prefix of, and a source list is taken as it is.
\<close>

definition exampleLibrary :: "string library" where
  "exampleLibrary = \<lparr> Compile = (\<lambda>s. if s = ''['' then Inl ''missing closing ]'' else Inr s),
     MatchString = (\<lambda>re n. prefix re n),
     FromString = (\<lambda>s. Inr [s]),
     GlobalRegistry = [\<lparr> ruleName = ''e_a'', provenance = ''CAB'' \<rparr>,
                       \<lparr> ruleName = ''w_b'', provenance = ''RFC5280'' \<rparr>] \<rparr>"

definition noFlags :: flags where
  "noFlags = \<lparr> nameFilter = [], includeNames = [], excludeNames = [],
     includeSources = [], excludeSources = [] \<rparr>"

section \<open>The three lints\<close>

subsection \<open>Certificates\<close>

text \<open>
  The parsed certificate comes from the X.509 library; the lints read its subject, its
  policy identifiers, its validity period and its extensions. An object identifier
  (\<^verbatim>\<open>asn1.ObjectIdentifier\<close>) is a list of numbers.
\<close>

type_synonym ObjectIdentifier = "nat list"

record AttributeTypeAndValue =
  Type :: ObjectIdentifier
  Value :: string

record pkixName =
  Names :: "AttributeTypeAndValue list"

record Extension =
  Id :: ObjectIdentifier
  Critical :: bool

text \<open>
  \<^verbatim>\<open>time.Time\<close> of the Go library is an instant, the seconds since 1970-01-01 00:00:00
  UTC and the nanoseconds of the second (0 to 999999999), together with the Location
  in which the instant is read. The library counts the seconds in 64 bits; no time of a
  parsed certificate is near the bounds, and the seconds are unbounded here.

  Of a Location the lint needs two things: \<open>offsetAt\<close>, the offset of its zone in use at
  an instant, in seconds east of UTC, and \<open>instantOf\<close>, the instant that \<^verbatim>\<open>time.Date\<close>
  gives a civil time of the Location, which comes counted in seconds as if it were in
  UTC (where a zone changes its offset the library chooses between two instants). The
  parser of certificate times gives UTC for the zone \<^verbatim>\<open>Z\<close> and, for a numeric offset, a
  fixed zone, or the local zone of the machine when the offset is its own.
\<close>

record Location =
  offsetAt :: "int \<Rightarrow> int"
  instantOf :: "int \<Rightarrow> int"

definition FixedZone :: "int \<Rightarrow> Location" where
  "FixedZone off = \<lparr> offsetAt = (\<lambda>sec. off), instantOf = (\<lambda>u. u - off) \<rparr>"

definition UTC :: Location where
  "UTC = FixedZone 0"

record Time =
  unixSec :: int
  nsec :: int
  loc :: Location

record Certificate =
  Subject :: pkixName
  PolicyIdentifiers :: "ObjectIdentifier list"
  NotBefore :: Time
  NotAfter :: Time
  Extensions :: "Extension list"

text \<open>
  Modelled from the spec: the object identifiers of package \<^verbatim>\<open>util\<close>, which are not among
  the sources: the subject attributes \<open>postalCode\<close> (2.5.4.17) and \<open>organizationName\<close>
  (2.5.4.10) and the extension \<open>nameConstraints\<close> (2.5.29.30).
\<close>

definition PostalCodeOID :: ObjectIdentifier where
  "PostalCodeOID = [2, 5, 4, 17]"

definition OrganizationNameOID :: ObjectIdentifier where
  "OrganizationNameOID = [2, 5, 4, 10]"

definition NameConstOID :: ObjectIdentifier where
  "NameConstOID = [2, 5, 29, 30]"

text \<open>
  Modelled from the spec: the severity enumeration of package \<^verbatim>\<open>lints\<close>, which is not among
  the sources, and the result of a lint, of which the three lints set the severity only.
\<close>

datatype ResultEnum = Reserved | Unknown | Fatal | Pass | Info | Notice | Warn | Error

record ResultStruct =
  Result :: ResultEnum

text \<open>
  Modelled from the spec: the helpers of package \<^verbatim>\<open>util\<close>, which are not among the sources.
  \<^item> \<^verbatim>\<open>util.TypeInName(name, oid)\<close>: the name has an attribute of the type \<open>oid\<close>.
  \<^item> \<^verbatim>\<open>util.GetExtFromCert(cert, oid)\<close>: a pointer to the first extension of the
    certificate with the identifier \<open>oid\<close>, the nil pointer (\<open>None\<close>) when there is none.
  \<^item> \<^verbatim>\<open>util.IsExtInCert(cert, oid)\<close>: the certificate has an extension with the
    identifier \<open>oid\<close>.
  \<^item> \<^verbatim>\<open>util.IsEv(policies)\<close>: one of the policy identifiers is an Extended-Validation
    policy identifier. The table of these identifiers is the parameter \<open>evoids\<close>.
  \<^item> \<^verbatim>\<open>util.IsSubCA(cert)\<close>, the classification of a certificate as a subordinate CA
    certificate, is a parameter of the lint that calls it.
\<close>

definition TypeInName :: "pkixName \<Rightarrow> ObjectIdentifier \<Rightarrow> bool" where
  "TypeInName name oid = list_ex (\<lambda>v. Type v = oid) (Names name)"

definition GetExtFromCert :: "Certificate \<Rightarrow> ObjectIdentifier \<Rightarrow> Extension option" where
  "GetExtFromCert cert oid = find (\<lambda>e. Id e = oid) (Extensions cert)"

definition IsExtInCert :: "Certificate \<Rightarrow> ObjectIdentifier \<Rightarrow> bool" where
  "IsExtInCert cert oid = (GetExtFromCert cert oid \<noteq> None)"

definition IsEv :: "ObjectIdentifier list \<Rightarrow> ObjectIdentifier list \<Rightarrow> bool" where
  "IsEv evoids policies = list_ex (\<lambda>oid. oid \<in> set evoids) policies"

subsection \<open>Dates\<close>

text \<open>
  The Go library's \<^verbatim>\<open>time.Date\<close>: the month overflows into the year, the nanoseconds,
  seconds, minutes and hours overflow into the day, and the days are counted from the
  first of the month, so that a day past the end of the month falls into the next one
  (October 31 plus one month is December 1). The civil time so counted is then taken as
  one of the Location.
\<close>

definition isLeap :: "int \<Rightarrow> bool" where
  "isLeap year = (year mod 4 = 0 \<and> (year mod 100 \<noteq> 0 \<or> year mod 400 = 0))"

definition daysBefore :: "int list" where
  "daysBefore = [0, 31, 59, 90, 120, 151, 181, 212, 243, 273, 304, 334, 365]"

text \<open>The days from 1970-01-01 to the first of January of \<open>year\<close>.\<close>

definition daysSinceEpoch :: "int \<Rightarrow> int" where
  "daysSinceEpoch year =
     365 * (year - 1970) + (year - 1) div 4 - (year - 1) div 100 + (year - 1) div 400 - 477"

definition Date :: "int \<Rightarrow> int \<Rightarrow> int \<Rightarrow> int \<Rightarrow> int \<Rightarrow> int \<Rightarrow> int \<Rightarrow> Location \<Rightarrow> Time" where
  "Date year month day hour minute second nanos l =
     (let m = (month - 1) mod 12;
          y = year + (month - 1) div 12;
          s1 = second + nanos div 1000000000;
          mi1 = minute + s1 div 60;
          h1 = hour + mi1 div 60;
          d1 = day + h1 div 24;
          d = daysSinceEpoch y + daysBefore ! nat m
                + (if isLeap y \<and> m \<ge> 2 then 1 else 0) + (d1 - 1)
      in \<lparr> unixSec = instantOf l (d * 86400 + (h1 mod 24) * 3600 + (mi1 mod 60) * 60 + s1 mod 60),
           nsec = nanos mod 1000000000, loc = l \<rparr>)"

text \<open>
  The seconds that the clock of the Location of \<open>t\<close> has counted at the instant \<open>t\<close>
  (\<^verbatim>\<open>t.abs()\<close>, from 1970-01-01 00:00:00 of the Location).
\<close>

definition absSec :: "Time \<Rightarrow> int" where
  "absSec t = unixSec t + offsetAt (loc t) (unixSec t)"

text \<open>
  \<^verbatim>\<open>t.Date()\<close>: the year, the month and the day of \<open>t\<close> in its Location. The year is found
  by going from 1970 year by year, the month by going from January month by month, with
  the lengths that \<open>isLeap\<close> and \<open>daysBefore\<close> give; \<open>n\<close> is the number of days left.
\<close>

definition yearLen :: "int \<Rightarrow> int" where
  "yearLen year = (if isLeap year then 366 else 365)"

function yearOfDay :: "int \<Rightarrow> int \<Rightarrow> int \<times> int" where
  "yearOfDay year n =
     (if n < 0 then yearOfDay (year - 1) (n + yearLen (year - 1))
      else if yearLen year \<le> n then yearOfDay (year + 1) (n - yearLen year)
      else (year, n))"
  by pat_completeness auto
termination
  by (relation "measure (\<lambda>(year, n). if n < 0 then nat (- n) + 366 else nat n)")
     (auto simp: yearLen_def split: if_splits)

definition monthLen :: "int \<Rightarrow> int \<Rightarrow> int" where
  "monthLen year month =
     daysBefore ! nat month - daysBefore ! nat (month - 1)
       + (if isLeap year \<and> month = 2 then 1 else 0)"

function monthOfDay :: "int \<Rightarrow> int \<Rightarrow> int \<Rightarrow> int \<times> int" where
  "monthOfDay year month n =
     (if month < 12 \<and> monthLen year month \<le> n
      then monthOfDay year (month + 1) (n - monthLen year month)
      else (month, n + 1))"
  by pat_completeness auto
termination
  by (relation "measure (\<lambda>(year, month, n). nat (12 - month))") auto

definition dateOf :: "Time \<Rightarrow> int \<times> int \<times> int" where
  "dateOf t =
     (case yearOfDay 1970 (absSec t div 86400) of (year, yday) \<Rightarrow>
        (case monthOfDay year 1 yday of (month, day) \<Rightarrow> (year, month, day)))"

text \<open>\<^verbatim>\<open>t.Clock()\<close>: the hour, the minute and the second of the day, in the Location.\<close>

definition clockOf :: "Time \<Rightarrow> int \<times> int \<times> int" where
  "clockOf t =
     (let s = absSec t mod 86400 in (s div 3600, (s mod 3600) div 60, s mod 60))"

text \<open>\<^verbatim>\<open>t.AddDate(years, months, days)\<close> and \<^verbatim>\<open>t.Before(u)\<close>.\<close>

definition AddDate :: "int \<Rightarrow> int \<Rightarrow> int \<Rightarrow> Time \<Rightarrow> Time" where
  "AddDate years months days t =
     (case dateOf t of (year, month, day) \<Rightarrow>
        (case clockOf t of (hour, minute, second) \<Rightarrow>
           Date (year + years) (month + months) (day + days) hour minute second (nsec t) (loc t)))"

definition Before :: "Time \<Rightarrow> Time \<Rightarrow> bool" where
  "Before t u = (unixSec t < unixSec u \<or> (unixSec t = unixSec u \<and> nsec t < nsec u))"

subsection \<open>The civil calendar\<close>

text \<open>
  The Gregorian calendar as the rule says it, to state what a date is without the
  functions above: a year is a leap year when 4 divides it, unless 100 divides it and
  400 does not; the lengths of the months; the days before a year and before a month as
  sums of these lengths; the seconds of a civil time, counted from 1970-01-01 00:00:00.
  A day past the end of its month counts on into the next month.
\<close>

definition leapYear :: "int \<Rightarrow> bool" where
  "leapYear y = (4 dvd y \<and> (\<not> 100 dvd y \<or> 400 dvd y))"

definition yearLength :: "int \<Rightarrow> int" where
  "yearLength y = (if leapYear y then 366 else 365)"

definition monthLength :: "int \<Rightarrow> int \<Rightarrow> int" where
  "monthLength y m =
     (if m = 2 then (if leapYear y then 29 else 28)
      else if m = 4 \<or> m = 6 \<or> m = 9 \<or> m = 11 then 30 else 31)"

definition daysBeforeYear :: "int \<Rightarrow> int" where
  "daysBeforeYear y =
     sum_list (map yearLength [1970..y - 1]) - sum_list (map yearLength [y..1969])"

definition daysBeforeMonth :: "int \<Rightarrow> int \<Rightarrow> int" where
  "daysBeforeMonth y m = sum_list (map (monthLength y) [1..m - 1])"

definition civilSeconds :: "int \<Rightarrow> int \<Rightarrow> int \<Rightarrow> int \<Rightarrow> int \<Rightarrow> int \<Rightarrow> int" where
  "civilSeconds y m d h mi s =
     (daysBeforeYear y + daysBeforeMonth y m + (d - 1)) * 86400 + h * 3600 + mi * 60 + s"

definition validCivil :: "int \<Rightarrow> int \<Rightarrow> int \<Rightarrow> int \<Rightarrow> int \<Rightarrow> int \<Rightarrow> bool" where
  "validCivil y m d h mi s =
     (1 \<le> m \<and> m \<le> 12 \<and> 1 \<le> d \<and> d \<le> monthLength y m \<and>
      0 \<le> h \<and> h < 24 \<and> 0 \<le> mi \<and> mi < 60 \<and> 0 \<le> s \<and> s < 60)"

text \<open>
  The clock of the Location of \<open>t\<close> reads the civil time \<open>y\<close>-\<open>m\<close>-\<open>d\<close> \<open>h\<close>:\<open>mi\<close>:\<open>s\<close> at the
  instant \<open>t\<close>.
\<close>

definition reads :: "Time \<Rightarrow> int \<Rightarrow> int \<Rightarrow> int \<Rightarrow> int \<Rightarrow> int \<Rightarrow> int \<Rightarrow> bool" where
  "reads t y m d h mi s =
     (validCivil y m d h mi s \<and>
      unixSec t + offsetAt (loc t) (unixSec t) = civilSeconds y m d h mi s)"

subsection \<open>\<^verbatim>\<open>lint_subject_postal_without_org.go\<close>\<close>

definition postalNoOrg_Initialize :: "error option" where
  "postalNoOrg_Initialize = None"

definition postalNoOrg_CheckApplies :: "Certificate \<Rightarrow> bool" where
  "postalNoOrg_CheckApplies cert = True"

definition postalNoOrg_RunTest :: "Certificate \<Rightarrow> ResultStruct \<times> error option" where
  "postalNoOrg_RunTest cert =
     (if TypeInName (Subject cert) PostalCodeOID \<and> \<not> TypeInName (Subject cert) OrganizationNameOID
      then (\<lparr> Result = Error \<rparr>, None)
      else (\<lparr> Result = Pass \<rparr>, None))"

subsection \<open>\<^verbatim>\<open>lint_ev_valid_time_too_long.go\<close>\<close>

definition evValidTooLong_Initialize :: "error option" where
  "evValidTooLong_Initialize = None"

definition evValidTooLong_CheckApplies :: "ObjectIdentifier list \<Rightarrow> Certificate \<Rightarrow> bool" where
  "evValidTooLong_CheckApplies evoids c = IsEv evoids (PolicyIdentifiers c)"

definition evValidTooLong_RunTest :: "Certificate \<Rightarrow> ResultStruct \<times> error option" where
  "evValidTooLong_RunTest c =
     (if Before (AddDate 2 3 0 (NotBefore c)) (NotAfter c)
      then (\<lparr> Result = Error \<rparr>, None)
      else (\<lparr> Result = Pass \<rparr>, None))"

subsection \<open>\<^verbatim>\<open>lint_sub_ca_name_constraints_not_critical.go\<close>\<close>

definition SubCANameConstraintsNotCritical_Initialize :: "error option" where
  "SubCANameConstraintsNotCritical_Initialize = None"

definition SubCANameConstraintsNotCritical_CheckApplies ::
  "(Certificate \<Rightarrow> bool) \<Rightarrow> Certificate \<Rightarrow> bool"
where
  "SubCANameConstraintsNotCritical_CheckApplies IsSubCA cert =
     (IsSubCA cert \<and> IsExtInCert cert NameConstOID)"

text \<open>Reading \<^verbatim>\<open>ski.Critical\<close> through a nil pointer is a panic.\<close>

definition SubCANameConstraintsNotCritical_RunTest ::
  "Certificate \<Rightarrow> (ResultStruct \<times> error option) outcome"
where
  "SubCANameConstraintsNotCritical_RunTest cert =
     (case GetExtFromCert cert NameConstOID of
        None \<Rightarrow> Panic
      | Some ski \<Rightarrow>
          (if Critical ski then Return (\<lparr> Result = Pass \<rparr>, None)
           else Return (\<lparr> Result = Warn \<rparr>, None)))"


text \<open>
  A certificate to run the lints on: a subject with a country and a postal code, an
  Extended-Validation policy, a validity of 29 months from 2020-01-01 in UTC, and name
  constraints that are not critical. And the validity of a second certificate, whose
  \<open>notBefore\<close> is 2020-01-31 20:00:00 in the zone -05:00, which is 2020-02-01 01:00:00
  in UTC, and whose \<open>notAfter\<close> is 2022-05-01 12:00:00 in UTC.
\<close>

definition exampleCert :: Certificate where
  "exampleCert = \<lparr> Subject = \<lparr> Names = [\<lparr> Type = [2, 5, 4, 6], Value = ''US'' \<rparr>,
                                        \<lparr> Type = [2, 5, 4, 17], Value = ''48109'' \<rparr>] \<rparr>,
     PolicyIdentifiers = [[2, 23, 140, 1, 1]],
     NotBefore = Date 2020 1 1 0 0 0 0 UTC,
     NotAfter = Date 2022 6 1 0 0 0 0 UTC,
     Extensions = [\<lparr> Id = [2, 5, 29, 19], Critical = True \<rparr>,
                   \<lparr> Id = [2, 5, 29, 30], Critical = False \<rparr>] \<rparr>"

definition zoneCert :: "Location \<Rightarrow> Certificate" where
  "zoneCert l = exampleCert\<lparr> NotBefore := \<lparr> unixSec = 1580518800, nsec = 0, loc = l \<rparr>,
     NotAfter := \<lparr> unixSec = 1651406400, nsec = 0, loc = UTC \<rparr> \<rparr>"

section \<open>Properties of the summary table\<close>

lemma map_of_levelsLoop:
  "map_of (levelsLoop t tbl lv) l =
     (if l \<in> levels tbl \<and> t < l then Some l else map_of lv l)"
  by (induction t tbl lv rule: levelsLoop.induct)
     (auto simp: levels_def update_conv')

lemma map_of_zeroLoop:
  "map_of (zeroLoop lv rc) s = (if s \<in> snd ` set lv then Some 0 else map_of rc s)"
  by (induction lv rc rule: zeroLoop.induct) (auto simp: update_conv')

lemma distinct_zeroLoop:
  "distinct (map fst rc) \<Longrightarrow> distinct (map fst (zeroLoop lv rc))"
  by (induction lv rc rule: zeroLoop.induct) (auto simp: distinct_update)

lemma countAt_update: "countAt (AList.update k v rc) s = (if s = k then v else countAt rc s)"
  by (simp add: countAt_def update_conv')

lemma detailsAt_update: "detailsAt (AList.update k v rd) s = (if s = k then v else detailsAt rd s)"
  by (simp add: detailsAt_def update_conv')

lemma withStatus_Cons:
  "withStatus s ((n, res) # rest) = (if Status res = s then (n, res) # withStatus s rest else withStatus s rest)"
  by (simp add: withStatus_def)

lemma statuses_Cons: "statuses ((n, res) # rest) = insert (Status res) (statuses rest)"
  by (simp add: statuses_def)

lemma withStatus_Nil_iff: "withStatus s rs = [] \<longleftrightarrow> s \<notin> statuses rs"
  by (auto simp: withStatus_def statuses_def filter_empty_conv)

lemma map_of_count:
  "map_of (fst (countLoop t long rs (rc, rd))) s =
     (if t < s \<and> s \<in> statuses rs then Some (countAt rc s + int (length (withStatus s rs)))
      else map_of rc s)"
proof (induction t long rs "(rc, rd)" arbitrary: rc rd rule: countLoop.induct)
  case (1 t long rc rd)
  then show ?case by (simp add: statuses_def)
next
  case (2 t long n res rest rc rd)
  then show ?case
    by (auto simp: statuses_Cons withStatus_Cons countAt_update update_conv' withStatus_Nil_iff countAt_def)
qed

lemma map_of_details:
  "map_of (snd (countLoop t long rs (rc, rd))) s =
     (if long \<and> t < s \<and> s \<in> statuses rs then Some (detailsAt rd s @ map fst (withStatus s rs))
      else map_of rd s)"
proof (induction t long rs "(rc, rd)" arbitrary: rc rd rule: countLoop.induct)
  case (1 t long rc rd)
  then show ?case by (simp add: statuses_def)
next
  case (2 t long n res rest rc rd)
  then show ?case
    by (auto simp: statuses_Cons withStatus_Cons detailsAt_update update_conv' withStatus_Nil_iff detailsAt_def)
qed

lemma distinct_count:
  "distinct (map fst rc) \<Longrightarrow> distinct (map fst (fst (countLoop t long rs (rc, rd))))"
  by (induction t long rs "(rc, rd)" arbitrary: rc rd rule: countLoop.induct)
     (auto simp: distinct_update)

lemma keysLoop_eq: "keysLoop xs sl = sl @ map fst xs"
  by (induction xs sl rule: keysLoop.induct) auto


lemma visitsAll_set: "visitsAll rng \<Longrightarrow> set (rng m) = set m"
  unfolding visitsAll_def by (metis set_mset_mset)

lemma visitsAll_keys: "visitsAll rng \<Longrightarrow> mset (map fst (rng m)) = mset (map fst m)"
  unfolding visitsAll_def by (metis mset_map)

lemma update_diag:
  "\<forall>(k, v) \<in> set al. k = v \<Longrightarrow> \<forall>(k, v) \<in> set (AList.update i i al). k = v"
  by (induction al) auto

lemma levelsLoop_diag:
  "\<forall>(k, v) \<in> set lv. k = v \<Longrightarrow> \<forall>(k, v) \<in> set (levelsLoop t tbl lv). k = v"
proof (induction t tbl lv rule: levelsLoop.induct)
  case (1 threshold lv)
  then show ?case by simp
next
  case (2 threshold label i rest lv)
  then show ?case using update_diag [of lv i] by simp
qed

lemma snd_levelsLoop: "snd ` set (levelsLoop t tbl []) = {l \<in> levels tbl. t < l}"
proof -
  let ?lv = "levelsLoop t tbl []"
  have "\<forall>(k, v) \<in> set ?lv. k = v" by (rule levelsLoop_diag) simp
  then have "snd ` set ?lv = fst ` set ?lv"
    by (intro image_cong refl) auto
  also have "\<dots> = dom (map_of ?lv)" by (simp add: dom_map_of_conv_image_fst)
  also have "\<dots> = {l \<in> levels tbl. t < l}"
    by (auto simp: dom_def map_of_levelsLoop split: if_splits)
  finally show ?thesis .
qed

lemma map_of_resultCount:
  assumes "visitsAll rng"
  shows "map_of (resultCount (newRT rng tbl r t results long)) s =
     (if t < s \<and> (s \<in> levels tbl \<or> s \<in> statuses results)
      then Some (int (length (withStatus s results))) else None)"
proof -
  let ?lv = "levelsLoop t tbl []"
  let ?rc0 = "zeroLoop (rng ?lv) []"
  have z: "map_of ?rc0 s = (if s \<in> levels tbl \<and> t < s then Some 0 else None)"
    using assms by (simp add: map_of_zeroLoop visitsAll_set snd_levelsLoop)
  have "map_of (resultCount (newRT rng tbl r t results long)) s =
      map_of (fst (countLoop t long results (?rc0, []))) s"
    by (simp add: newRT_def Let_def)
  also have "\<dots> = (if t < s \<and> s \<in> statuses results
      then Some (countAt ?rc0 s + int (length (withStatus s results))) else map_of ?rc0 s)"
    by (rule map_of_count)
  also have "\<dots> = (if t < s \<and> (s \<in> levels tbl \<or> s \<in> statuses results)
      then Some (int (length (withStatus s results))) else None)"
    using z withStatus_Nil_iff [of s results] by (auto simp: countAt_def)
  finally show ?thesis .
qed

lemma map_of_resultDetails:
  "map_of (resultDetails (newRT rng tbl r t results long)) s =
     (if long \<and> t < s \<and> s \<in> statuses results
      then Some (map fst (withStatus s results)) else None)"
  by (simp add: newRT_def Let_def map_of_details detailsAt_def)

lemma map_of_lintLevels:
  "map_of (lintLevelsAboveThreshold (newRT rng tbl r t results long)) l =
     (if l \<in> levels tbl \<and> t < l then Some l else None)"
  by (simp add: newRT_def Let_def map_of_levelsLoop)

lemma distinct_resultCount:
  "distinct (map fst (resultCount (newRT rng tbl r t results long)))"
  by (simp add: newRT_def Let_def distinct_count distinct_zeroLoop)

lemma finite_levels: "finite (levels tbl)" by (simp add: levels_def)
lemma finite_statuses: "finite (statuses rs)" by (simp add: statuses_def)

lemma sortedLevels_newRT:
  assumes "visitsAll rng"
  shows "sortedLevels (newRT rng tbl r t results long) =
     sort (sortedLevels r @
       sorted_list_of_set {s. t < s \<and> (s \<in> levels tbl \<or> s \<in> statuses results)})"
proof -
  let ?rt = "newRT rng tbl r t results long"
  let ?A = "{s. t < s \<and> (s \<in> levels tbl \<or> s \<in> statuses results)}"
  have fin: "finite ?A"
    by (rule finite_subset [of _ "levels tbl \<union> statuses results"])
       (auto simp: finite_levels finite_statuses)
  have keys: "set (map fst (resultCount ?rt)) = ?A"
    using map_of_resultCount [OF assms, of tbl r t results long]
    by (auto simp: dom_map_of_conv_image_fst [symmetric] dom_def split: if_splits)
  have "mset (map fst (rng (resultCount ?rt))) = mset (map fst (resultCount ?rt))"
    by (rule visitsAll_keys [OF assms])
  also have "\<dots> = mset (sorted_list_of_set ?A)"
    using keys distinct_resultCount [of rng tbl r t results long] fin
    by (metis distinct_sorted_list_of_set set_eq_iff_mset_eq_distinct set_sorted_list_of_set)
  finally have m: "mset (sortedLevels r @ map fst (rng (resultCount ?rt))) =
      mset (sortedLevels r @ sorted_list_of_set ?A)" by simp
  have "sortedLevels ?rt = sort (sortedLevels r @ map fst (rng (resultCount ?rt)))"
    by (simp add: newRT_def Let_def keysLoop_eq)
  also have "\<dots> = sort (sortedLevels r @ sorted_list_of_set ?A)"
    using arg_cong [OF m, of sorted_list_of_multiset]
    by (simp only: sorted_list_of_multiset_mset)
  finally show ?thesis .
qed

text \<open>
  Claim C1. Whatever the result set and the threshold \<open>T\<close>, the table that \<^verbatim>\<open>newRT\<close>
  returns has a bucket for the status \<open>s\<close> exactly when \<open>s\<close> is strictly above \<open>T\<close> and
  is a level of the status table or the status of a result, and the count of the bucket
  is the number of results of the set with exactly the status \<open>s\<close>. So a result is counted
  if and only if its status strictly exceeds \<open>T\<close>, in the bucket of its own status; a
  result at or below \<open>T\<close> is in no bucket, and a level above \<open>T\<close> that no result bears has
  the count 0.
\<close>

theorem newRT_counts:
  assumes "visitsAll rng"
  shows "map_of (resultCount (newRT rng tbl r T results long)) s =
     (if T < s \<and> (s \<in> levels tbl \<or> s \<in> statuses results)
      then Some (int (length (withStatus s results))) else None)"
  using assms by (rule map_of_resultCount)

text \<open>With the threshold 3: two results at level 6, none at level 4, no bucket for level 3.\<close>

theorem newRT_counts_witness:
  "visitsAll rev \<and>
   map_of (resultCount (newRT rev exampleTable emptyRT 3 exampleResults True)) 6 = Some 2 \<and>
   map_of (resultCount (newRT rev exampleTable emptyRT 3 exampleResults True)) 4 = Some 0 \<and>
   map_of (resultCount (newRT rev exampleTable emptyRT 3 exampleResults True)) 3 = None"
proof -
  have v: "visitsAll rev" by (simp add: visitsAll_def)
  show ?thesis
    using v newRT_counts [OF v, of exampleTable emptyRT 3 exampleResults True 6]
      newRT_counts [OF v, of exampleTable emptyRT 3 exampleResults True 4]
      newRT_counts [OF v, of exampleTable emptyRT 3 exampleResults True 3]
    by (simp add: levels_def statuses_def withStatus_def exampleTable_def exampleResults_def)
qed

text \<open>
  Claim C3. Called on the zero value of the table, as the tool calls it, \<^verbatim>\<open>newRT\<close> returns
  as \<^verbatim>\<open>sortedLevels\<close> a list in ascending order that holds each of its elements once:
  the levels of the status table strictly above the threshold \<open>T\<close>, those that no result
  bears too, and the statuses of the results strictly above \<open>T\<close>. So for every result set
  whose statuses are levels of the table, the list holds exactly the levels strictly
  above \<open>T\<close>, and in no case a level at or below \<open>T\<close>.
\<close>

theorem newRT_sortedLevels:
  assumes "visitsAll rng" and "sortedLevels r = []"
  shows "sorted (sortedLevels (newRT rng tbl r T results long)) \<and>
     distinct (sortedLevels (newRT rng tbl r T results long)) \<and>
     set (sortedLevels (newRT rng tbl r T results long)) =
       {l. T < l \<and> (l \<in> levels tbl \<or> l \<in> statuses results)} \<and>
     (statuses results \<subseteq> levels tbl \<longrightarrow>
       set (sortedLevels (newRT rng tbl r T results long)) = {l \<in> levels tbl. T < l})"
proof -
  let ?A = "{s. T < s \<and> (s \<in> levels tbl \<or> s \<in> statuses results)}"
  have fin: "finite ?A"
    by (rule finite_subset [of _ "levels tbl \<union> statuses results"])
       (auto simp: finite_levels finite_statuses)
  have A: "statuses results \<subseteq> levels tbl \<Longrightarrow> ?A = {l \<in> levels tbl. T < l}" by auto
  have "sortedLevels (newRT rng tbl r T results long) = sort (sorted_list_of_set ?A)"
    using sortedLevels_newRT [OF assms(1), of tbl r T results long] assms(2) by simp
  also have "\<dots> = sorted_list_of_set ?A"
    by (simp add: sort_key_id_if_sorted)
  finally have sl: "sortedLevels (newRT rng tbl r T results long) = sorted_list_of_set ?A" .
  have 1: "sorted (sortedLevels (newRT rng tbl r T results long))"
    and 2: "distinct (sortedLevels (newRT rng tbl r T results long))"
    and 3: "set (sortedLevels (newRT rng tbl r T results long)) = ?A"
    using fin by (simp_all only: sl sorted_list_of_set.sorted_sorted_key_list_of_set
        distinct_sorted_list_of_set set_sorted_list_of_set)
  from 3 A have "statuses results \<subseteq> levels tbl \<longrightarrow>
       set (sortedLevels (newRT rng tbl r T results long)) = {l \<in> levels tbl. T < l}"
    by simp
  with 1 2 3 show ?thesis by (intro conjI)
qed

text \<open>With the threshold 3 the levels are 4, 5, 6 and 7, though no result is at 4 or 7.\<close>

theorem newRT_sortedLevels_witness:
  "visitsAll rev \<and> sortedLevels emptyRT = [] \<and> statuses exampleResults \<subseteq> levels exampleTable \<and>
   sorted (sortedLevels (newRT rev exampleTable emptyRT 3 exampleResults False)) \<and>
   set (sortedLevels (newRT rev exampleTable emptyRT 3 exampleResults False)) = {4, 5, 6, 7}"
proof -
  have v: "visitsAll rev" by (simp add: visitsAll_def)
  have e: "sortedLevels emptyRT = []" by (simp add: emptyRT_def)
  have s: "statuses exampleResults \<subseteq> levels exampleTable"
    by (simp add: levels_def statuses_def exampleTable_def exampleResults_def)
  have "{l \<in> levels exampleTable. 3 < l} = {4, 5, 6, 7}"
    by (auto simp: levels_def exampleTable_def)
  then show ?thesis
    using v e s newRT_sortedLevels [OF v e, of exampleTable 3 exampleResults False] by blast
qed

text \<open>
  Claim C2, amended. Two calls of \<^verbatim>\<open>newRT\<close> with the same receiver, threshold and flag, on
  the same status table and the same result set, whatever the orders in which the runtime
  visits the maps, return the same counts, the same levels above the threshold and the
  same \<^verbatim>\<open>sortedLevels\<close>; the details have the same keys, and for each status the same rule
  names, each as often in one list as in the other. The order of the names in a list is
  the order of the visit of the result set.
\<close>

theorem newRT_same_result_set:
  assumes "visitsAll rng1" and "visitsAll rng2"
    and "set tbl1 = set tbl2" and "mset results1 = mset results2"
  shows "map_of (resultCount (newRT rng1 tbl1 r T results1 long)) =
           map_of (resultCount (newRT rng2 tbl2 r T results2 long)) \<and>
         map_of (lintLevelsAboveThreshold (newRT rng1 tbl1 r T results1 long)) =
           map_of (lintLevelsAboveThreshold (newRT rng2 tbl2 r T results2 long)) \<and>
         sortedLevels (newRT rng1 tbl1 r T results1 long) =
           sortedLevels (newRT rng2 tbl2 r T results2 long) \<and>
         dom (map_of (resultDetails (newRT rng1 tbl1 r T results1 long))) =
           dom (map_of (resultDetails (newRT rng2 tbl2 r T results2 long))) \<and>
         (\<forall>s. mset (detailsAt (resultDetails (newRT rng1 tbl1 r T results1 long)) s) =
              mset (detailsAt (resultDetails (newRT rng2 tbl2 r T results2 long)) s))"
proof -
  have l: "levels tbl1 = levels tbl2" using assms(3) by (simp add: levels_def)
  have st: "statuses results1 = statuses results2"
    using assms(4) by (metis statuses_def set_mset_mset)
  have w: "mset (withStatus s results1) = mset (withStatus s results2)" for s
    using assms(4) by (simp add: withStatus_def)
  have len: "length (withStatus s results1) = length (withStatus s results2)" for s
    using w [of s] by (metis size_mset)
  have names: "mset (map fst (withStatus s results1)) = mset (map fst (withStatus s results2))" for s
    using w [of s] by (metis mset_map)
  have 1: "map_of (resultCount (newRT rng1 tbl1 r T results1 long)) =
           map_of (resultCount (newRT rng2 tbl2 r T results2 long))"
    by (rule ext) (simp add: map_of_resultCount assms(1,2) l st len)
  have 2: "map_of (lintLevelsAboveThreshold (newRT rng1 tbl1 r T results1 long)) =
           map_of (lintLevelsAboveThreshold (newRT rng2 tbl2 r T results2 long))"
    by (rule ext) (simp add: map_of_lintLevels l)
  have 3: "sortedLevels (newRT rng1 tbl1 r T results1 long) =
           sortedLevels (newRT rng2 tbl2 r T results2 long)"
    by (simp add: sortedLevels_newRT assms(1,2) l st)
  have 4: "dom (map_of (resultDetails (newRT rng1 tbl1 r T results1 long))) =
           dom (map_of (resultDetails (newRT rng2 tbl2 r T results2 long)))"
    by (simp add: dom_def map_of_resultDetails st)
  have 5: "mset (detailsAt (resultDetails (newRT rng1 tbl1 r T results1 long)) s) =
           mset (detailsAt (resultDetails (newRT rng2 tbl2 r T results2 long)) s)" for s
    using names [of s] by (simp add: detailsAt_def map_of_resultDetails st)
  show ?thesis using 1 2 3 4 5 by blast
qed

text \<open>The example, visited forwards and backwards.\<close>

theorem newRT_same_result_set_witness:
  "visitsAll rev \<and> visitsAll id \<and> set (rev exampleTable) = set exampleTable \<and>
   mset (rev exampleResults) = mset exampleResults \<and>
   sortedLevels (newRT rev (rev exampleTable) emptyRT 3 (rev exampleResults) True) =
     sortedLevels (newRT id exampleTable emptyRT 3 exampleResults True)"
proof -
  have v: "visitsAll rev" and i: "visitsAll id" by (simp_all add: visitsAll_def)
  have t: "set (rev exampleTable) = set exampleTable" by simp
  have m: "mset (rev exampleResults) = mset exampleResults" by simp
  show ?thesis
    using v i t m newRT_same_result_set [OF v i t m, of emptyRT 3 True] by blast
qed

text \<open>
  Claim C2 as it stands fails: a result set of two errors, visited in its two orders,
  gives the names of the errors in two orders, so the two tables differ.
\<close>

theorem newRT_details_order_counterexample:
  "mset [(''e_a'', \<lparr>Status = 6\<rparr>), (''e_c'', \<lparr>Status = 6\<rparr>)] =
     mset [(''e_c'', \<lparr>Status = 6\<rparr>), (''e_a'', \<lparr>Status = 6\<rparr>)] \<and>
   detailsAt (resultDetails (newRT id exampleTable emptyRT 3
       [(''e_a'', \<lparr>Status = 6\<rparr>), (''e_c'', \<lparr>Status = 6\<rparr>)] True)) 6 = [''e_a'', ''e_c''] \<and>
   detailsAt (resultDetails (newRT id exampleTable emptyRT 3
       [(''e_c'', \<lparr>Status = 6\<rparr>), (''e_a'', \<lparr>Status = 6\<rparr>)] True)) 6 = [''e_c'', ''e_a''] \<and>
   newRT id exampleTable emptyRT 3 [(''e_a'', \<lparr>Status = 6\<rparr>), (''e_c'', \<lparr>Status = 6\<rparr>)] True \<noteq>
   newRT id exampleTable emptyRT 3 [(''e_c'', \<lparr>Status = 6\<rparr>), (''e_a'', \<lparr>Status = 6\<rparr>)] True"
proof -
  let ?ab = "[(''e_a'', \<lparr>Status = 6\<rparr>), (''e_c'', \<lparr>Status = 6\<rparr>)]"
  let ?ba = "[(''e_c'', \<lparr>Status = 6\<rparr>), (''e_a'', \<lparr>Status = 6\<rparr>)]"
  have m: "mset ?ab = mset ?ba" by (simp add: add.commute)
  have a: "detailsAt (resultDetails (newRT id exampleTable emptyRT 3 ?ab True)) 6 = [''e_a'', ''e_c'']"
    by (simp add: detailsAt_def map_of_resultDetails statuses_def withStatus_def)
  have b: "detailsAt (resultDetails (newRT id exampleTable emptyRT 3 ?ba True)) 6 = [''e_c'', ''e_a'']"
    by (simp add: detailsAt_def map_of_resultDetails statuses_def withStatus_def)
  have "newRT id exampleTable emptyRT 3 ?ab True \<noteq> newRT id exampleTable emptyRT 3 ?ba True"
  proof
    assume "newRT id exampleTable emptyRT 3 ?ab True = newRT id exampleTable emptyRT 3 ?ba True"
    then have "detailsAt (resultDetails (newRT id exampleTable emptyRT 3 ?ab True)) 6 =
        detailsAt (resultDetails (newRT id exampleTable emptyRT 3 ?ba True)) 6" by simp
    then show False unfolding a b by simp
  qed
  then show ?thesis using m a b by blast
qed

section \<open>Properties of the flag values\<close>

lemma length_splitFrom: "length (splitFrom s sep cur) = count_list s sep + 1"
  by (induction s sep cur rule: splitFrom.induct) auto

lemma Join_Cons: "xs \<noteq> [] \<Longrightarrow> Join (x # xs) sep = x @ sep # Join xs sep"
  by (cases xs) auto

lemma splitFrom_nonempty: "splitFrom s sep cur \<noteq> []"
  by (induction s sep cur rule: splitFrom.induct) auto

lemma Join_splitFrom: "Join (splitFrom s sep cur) sep = cur @ s"
  by (induction s sep cur rule: splitFrom.induct)
     (auto simp: Join_Cons splitFrom_nonempty)

lemma splitFrom_no_sep:
  "sep \<notin> set cur \<Longrightarrow> x \<in> set (splitFrom s sep cur) \<Longrightarrow> sep \<notin> set x"
  by (induction s sep cur rule: splitFrom.induct) (auto split: if_splits)

lemma trimmedLoop_eq: "trimmedLoop items list = list @ map TrimSpace items"
  by (induction items list rule: trimmedLoop.induct) auto

lemma trimmedList_eq: "trimmedList raw = map TrimSpace (Split raw (CHR '',''))"
  by (simp add: trimmedList_def trimmedLoop_eq)

lemma spaces_nonempty: "w \<in> set spaces \<Longrightarrow> w \<noteq> []"
  by (auto simp: spaces_def)

lemma find_Some_holds: "find P xs = Some x \<Longrightarrow> x \<in> set xs \<and> P x"
  by (induction xs) (auto split: if_splits)

lemma spaceAtFront_0: "spaceAtFront s = 0 \<longleftrightarrow> (\<forall>w \<in> set spaces. \<not> prefix w s)"
proof (cases "find (\<lambda>w. prefix w s) spaces")
  case None
  then have "spaceAtFront s = 0" by (simp add: spaceAtFront_def)
  moreover from None have "\<forall>w \<in> set spaces. \<not> prefix w s" by (simp add: find_None_iff)
  ultimately show ?thesis by simp
next
  case (Some w)
  then have "w \<in> set spaces \<and> prefix w s" by (rule find_Some_holds)
  then show ?thesis using Some spaces_nonempty [of w] by (auto simp: spaceAtFront_def)
qed

lemma spaceAtBack_0: "spaceAtBack s = 0 \<longleftrightarrow> (\<forall>w \<in> set spaces. \<not> suffix w s)"
proof (cases "find (\<lambda>w. suffix w s) spaces")
  case None
  then have "spaceAtBack s = 0" by (simp add: spaceAtBack_def)
  moreover from None have "\<forall>w \<in> set spaces. \<not> suffix w s" by (simp add: find_None_iff)
  ultimately show ?thesis by simp
next
  case (Some w)
  then have "w \<in> set spaces \<and> suffix w s" by (rule find_Some_holds)
  then show ?thesis using Some spaces_nonempty [of w] by (auto simp: spaceAtBack_def)
qed

lemma spaceAtFront_split:
  assumes "spaceAtFront s \<noteq> 0"
  shows "\<exists>w \<in> set spaces. s = w @ drop (spaceAtFront s) s"
proof (cases "find (\<lambda>w. prefix w s) spaces")
  case None
  then show ?thesis using assms by (simp add: spaceAtFront_def)
next
  case (Some w)
  then have w: "w \<in> set spaces" "prefix w s" using find_Some_holds by fastforce+
  from w(2) obtain zs where "s = w @ zs" by (auto simp: prefix_def)
  then have "s = w @ drop (length w) s" by simp
  then show ?thesis using w(1) Some by (auto simp: spaceAtFront_def)
qed

lemma spaceAtBack_split:
  assumes "spaceAtBack s \<noteq> 0"
  shows "\<exists>w \<in> set spaces. s = take (length s - spaceAtBack s) s @ w"
proof (cases "find (\<lambda>w. suffix w s) spaces")
  case None
  then show ?thesis using assms by (simp add: spaceAtBack_def)
next
  case (Some w)
  then have w: "w \<in> set spaces" "suffix w s" using find_Some_holds by fastforce+
  from w(2) obtain zs where "s = zs @ w" by (auto simp: suffix_def)
  then have "s = take (length s - length w) s @ w" by simp
  then show ?thesis using w(1) Some by (auto simp: spaceAtBack_def)
qed

lemma spaceRuns_back: "a \<in> spaceRuns \<Longrightarrow> w \<in> set spaces \<Longrightarrow> a @ w \<in> spaceRuns"
proof (induction rule: spaceRuns.induct)
  case empty
  then show ?case using spaceRuns.front [OF _ spaceRuns.empty, of w] by simp
next
  case (front v a)
  then show ?case using spaceRuns.front [of v "a @ w"] by simp
qed

lemma TrimLeft_spec:
  "\<exists>a \<in> spaceRuns. s = a @ TrimLeft s \<and> (\<forall>w \<in> set spaces. \<not> prefix w (TrimLeft s))"
proof (induction s rule: TrimLeft.induct)
  case (1 s)
  show ?case
  proof (cases "spaceAtFront s = 0")
    case True
    then show ?thesis
      using spaceRuns.empty by (subst (1 2) TrimLeft.simps) (auto simp: spaceAtFront_0)
  next
    case False
    then obtain w where w: "w \<in> set spaces" "s = w @ drop (spaceAtFront s) s"
      using spaceAtFront_split by blast
    from 1 [OF False] obtain a where a: "a \<in> spaceRuns"
      "drop (spaceAtFront s) s = a @ TrimLeft (drop (spaceAtFront s) s)"
      "\<forall>w \<in> set spaces. \<not> prefix w (TrimLeft (drop (spaceAtFront s) s))"
      by blast
    have t: "TrimLeft s = TrimLeft (drop (spaceAtFront s) s)"
      using False by (subst TrimLeft.simps) simp
    have A: "w @ a \<in> spaceRuns" using w(1) a(1) by (rule spaceRuns.front)
    from a(2) have "w @ drop (spaceAtFront s) s = w @ a @ TrimLeft (drop (spaceAtFront s) s)"
      by (rule arg_cong)
    with w(2) have "s = w @ a @ TrimLeft (drop (spaceAtFront s) s)" by (rule trans)
    then have B: "s = (w @ a) @ TrimLeft s" unfolding t by (simp only: append_assoc)
    have C: "\<forall>w \<in> set spaces. \<not> prefix w (TrimLeft s)" unfolding t by (rule a(3))
    show ?thesis using A B C by blast
  qed
qed

lemma TrimRight_spec:
  "\<exists>b \<in> spaceRuns. s = TrimRight s @ b \<and> (\<forall>w \<in> set spaces. \<not> suffix w (TrimRight s))"
proof (induction s rule: TrimRight.induct)
  case (1 s)
  let ?s' = "take (length s - spaceAtBack s) s"
  show ?case
  proof (cases "spaceAtBack s = 0")
    case True
    then show ?thesis
      using spaceRuns.empty by (subst (1 2) TrimRight.simps) (auto simp: spaceAtBack_0)
  next
    case False
    then obtain w where w: "w \<in> set spaces" "s = ?s' @ w"
      using spaceAtBack_split by blast
    from 1 [OF False] obtain b where b: "b \<in> spaceRuns"
      "?s' = TrimRight ?s' @ b"
      "\<forall>w \<in> set spaces. \<not> suffix w (TrimRight ?s')"
      by blast
    have t: "TrimRight s = TrimRight ?s'"
      using False by (subst TrimRight.simps) simp
    have A: "b @ w \<in> spaceRuns" using b(1) w(1) by (rule spaceRuns_back)
    from b(2) have "?s' @ w = (TrimRight ?s' @ b) @ w"
      by (rule arg_cong [where f = "\<lambda>x. x @ w"])
    with w(2) have "s = (TrimRight ?s' @ b) @ w" by (rule trans)
    then have B: "s = TrimRight s @ (b @ w)" unfolding t by (simp only: append_assoc)
    have C: "\<forall>w \<in> set spaces. \<not> suffix w (TrimRight s)" unfolding t by (rule b(3))
    show ?thesis using A B C by blast
  qed
qed

lemma TrimSpace_spec:
  "\<exists>a \<in> spaceRuns. \<exists>b \<in> spaceRuns. s = a @ TrimSpace s @ b \<and>
     (\<forall>w \<in> set spaces. \<not> prefix w (TrimSpace s) \<and> \<not> suffix w (TrimSpace s))"
proof -
  obtain a where a: "a \<in> spaceRuns" "s = a @ TrimLeft s"
    "\<forall>w \<in> set spaces. \<not> prefix w (TrimLeft s)"
    using TrimLeft_spec [of s] by blast
  obtain b where b: "b \<in> spaceRuns" "TrimLeft s = TrimSpace s @ b"
    "\<forall>w \<in> set spaces. \<not> suffix w (TrimSpace s)"
    using TrimRight_spec [of "TrimLeft s"] unfolding TrimSpace_def by blast
  have "\<not> prefix w (TrimSpace s)" if "w \<in> set spaces" for w
  proof
    assume "prefix w (TrimSpace s)"
    then have "prefix w (TrimSpace s @ b)" by (rule prefix_prefix)
    then show False using a(3) b(2) that by simp
  qed
  moreover have "s = a @ TrimSpace s @ b" using a(2) b(2) by simp
  ultimately show ?thesis using a(1) b(1) b(3) by blast
qed

lemma length_trimmedList: "length (trimmedList s) = count_list s (CHR '','') + 1"
  by (simp add: trimmedList_eq Split_def length_splitFrom)

text \<open>
  Claim C8. For every string \<open>s\<close> the list \<^verbatim>\<open>trimmedList(s)\<close> has as many elements as \<open>s\<close>
  has commas, plus one. There are segments that hold no comma and that, joined by commas,
  give \<open>s\<close> back, such that the elements of the list are, in order, these segments
  without their leading and trailing white space: a segment is a run of white space, the
  element, and a run of white space, and the element neither begins nor ends with a white
  space rune. For the empty string the list is the one empty string; the list is never
  empty.
\<close>

theorem trimmedList_segments:
  "(\<exists>segs. length segs = count_list s (CHR '','') + 1 \<and> Join segs (CHR '','') = s \<and>
      (\<forall>x \<in> set segs. CHR '','' \<notin> set x) \<and>
      length (trimmedList s) = length segs \<and>
      (\<forall>i < length segs. \<exists>a \<in> spaceRuns. \<exists>b \<in> spaceRuns.
          segs ! i = a @ trimmedList s ! i @ b \<and>
          (\<forall>w \<in> set spaces. \<not> prefix w (trimmedList s ! i) \<and> \<not> suffix w (trimmedList s ! i)))) \<and>
   length (trimmedList s) = count_list s (CHR '','') + 1 \<and>
   trimmedList s \<noteq> [] \<and> trimmedList [] = [[]]"
proof -
  let ?segs = "Split s (CHR '','')"
  have 1: "length ?segs = count_list s (CHR '','') + 1"
    by (simp add: Split_def length_splitFrom)
  have 2: "Join ?segs (CHR '','') = s"
    by (simp add: Split_def Join_splitFrom)
  have 3: "\<forall>x \<in> set ?segs. CHR '','' \<notin> set x"
    using splitFrom_no_sep [of "CHR '',''" "[]" _ s] by (auto simp: Split_def)
  have 4: "length (trimmedList s) = length ?segs"
    by (simp add: trimmedList_eq)
  have 5: "\<forall>i < length ?segs. \<exists>a \<in> spaceRuns. \<exists>b \<in> spaceRuns.
          ?segs ! i = a @ trimmedList s ! i @ b \<and>
          (\<forall>w \<in> set spaces. \<not> prefix w (trimmedList s ! i) \<and> \<not> suffix w (trimmedList s ! i))"
  proof (intro allI impI)
    fix i assume "i < length ?segs"
    then have "trimmedList s ! i = TrimSpace (?segs ! i)" by (simp add: trimmedList_eq)
    then show "\<exists>a \<in> spaceRuns. \<exists>b \<in> spaceRuns.
          ?segs ! i = a @ trimmedList s ! i @ b \<and>
          (\<forall>w \<in> set spaces. \<not> prefix w (trimmedList s ! i) \<and> \<not> suffix w (trimmedList s ! i))"
      using TrimSpace_spec [of "?segs ! i"] by simp
  qed
  have 6: "trimmedList s \<noteq> []" using length_trimmedList [of s] by auto
  have 7: "trimmedList [] = [[]]"
    by (simp add: trimmedList_eq Split_def TrimSpace_def TrimLeft.simps TrimRight.simps
          spaceAtFront_def spaceAtBack_def spaces_def)
  from 1 2 3 4 5 have "\<exists>segs. length segs = count_list s (CHR '','') + 1 \<and> Join segs (CHR '','') = s \<and>
      (\<forall>x \<in> set segs. CHR '','' \<notin> set x) \<and>
      length (trimmedList s) = length segs \<and>
      (\<forall>i < length segs. \<exists>a \<in> spaceRuns. \<exists>b \<in> spaceRuns.
          segs ! i = a @ trimmedList s ! i @ b \<and>
          (\<forall>w \<in> set spaces. \<not> prefix w (trimmedList s ! i) \<and> \<not> suffix w (trimmedList s ! i)))"
    by (intro exI [of _ ?segs] conjI)
  then show ?thesis using length_trimmedList [of s] 6 7 by (intro conjI)
qed

text \<open>Four segments, one of them empty, and the empty string.\<close>

theorem trimmedList_segments_witness:
  "length (trimmedList '' a , b,,c d  '') = 4 \<and>
   trimmedList '' a , b,,c d  '' = [''a'', ''b'', [], ''c d''] \<and>
   trimmedList [] = [[]]"
proof -
  have "trimmedList '' a , b,,c d  '' = [''a'', ''b'', [], ''c d'']" by code_simp
  moreover have "length (trimmedList '' a , b,,c d  '') = 4"
    using trimmedList_segments [of "'' a , b,,c d  ''"] by simp
  ultimately show ?thesis using trimmedList_segments [of "[]"] by blast
qed

section \<open>Properties of the configuration\<close>

lemma trimmedList_nonempty: "trimmedList s \<noteq> []"
  using length_trimmedList [of s] by auto

lemma NameFilter_namesBranches: "NameFilter (namesBranches f fo) = NameFilter fo"
  by (simp add: namesBranches_def Let_def)

lemma names_namesBranches:
  "includeNames f \<noteq> [] \<or> excludeNames f \<noteq> [] \<Longrightarrow>
   IncludeNames (namesBranches f fo) \<noteq> [] \<or> ExcludeNames (namesBranches f fo) \<noteq> []"
  by (auto simp: namesBranches_def Let_def trimmedList_nonempty)

lemma Filter_conflict:
  "NameFilter opts \<noteq> None \<Longrightarrow> IncludeNames opts \<noteq> [] \<or> ExcludeNames opts \<noteq> [] \<Longrightarrow>
   \<exists>err. Filter matches registry opts = (None, Some err)"
  by (simp add: Filter_def)

lemma NameFilter_excludeSourcesBranch:
  "excludeSourcesBranch lib f fo = Return fo' \<Longrightarrow> NameFilter fo' = NameFilter fo"
  by (auto simp: excludeSourcesBranch_def split: if_splits sum.splits)

lemma NameFilter_includeSourcesBranch:
  "includeSourcesBranch lib f fo = Return fo' \<Longrightarrow> NameFilter fo' = NameFilter fo"
  by (auto simp: includeSourcesBranch_def split: if_splits sum.splits)

lemma excludeSourcesBranch_no_Panic: "excludeSourcesBranch lib f fo \<noteq> Panic"
  by (auto simp: excludeSourcesBranch_def split: if_splits sum.splits)

lemma includeSourcesBranch_no_Panic: "includeSourcesBranch lib f fo \<noteq> Panic"
  by (auto simp: includeSourcesBranch_def split: if_splits sum.splits)

lemma compileNameFilter_Inr:
  "nameFilter f \<noteq> [] \<Longrightarrow> compileNameFilter lib f fo = Inr fo' \<Longrightarrow> NameFilter fo' \<noteq> None"
  by (auto simp: compileNameFilter_def split: sum.splits)

text \<open>
  Claim C6. When the \<^verbatim>\<open>nameFilter\<close> flag is not empty and one of \<^verbatim>\<open>includeNames\<close> and
  \<^verbatim>\<open>excludeNames\<close> is not empty either, \<^verbatim>\<open>setLints\<close> ends the process or returns a nil
  registry with an error, whatever the other flags, the regular expression library, the
  parsing of the source lists and the registry are.
\<close>

theorem setLints_conflicting_filters:
  assumes "nameFilter f \<noteq> []" and "includeNames f \<noteq> [] \<or> excludeNames f \<noteq> []"
  shows "(\<exists>msg. setLints lib f = Exit msg) \<or> (\<exists>err. setLints lib f = Return (None, Some err))"
proof (cases "compileNameFilter lib f noFilterOptions")
  case (Inl err)
  then show ?thesis using assms(1) by (simp add: setLints_def)
next
  case (Inr fo1)
  then have n1: "NameFilter fo1 \<noteq> None" using assms(1) compileNameFilter_Inr by blast
  show ?thesis
  proof (cases "excludeSourcesBranch lib f fo1")
    case (Return fo2)
    then have n2: "NameFilter fo2 \<noteq> None" using n1 NameFilter_excludeSourcesBranch by metis
    show ?thesis
    proof (cases "includeSourcesBranch lib f fo2")
      case (Return fo3)
      then have "NameFilter fo3 \<noteq> None" using n2 NameFilter_includeSourcesBranch by metis
      then have nf: "NameFilter (namesBranches f fo3) \<noteq> None"
        by (simp add: NameFilter_namesBranches)
      have "\<exists>err. Filter (MatchString lib) (GlobalRegistry lib) (namesBranches f fo3) =
          (None, Some err)"
        using nf names_namesBranches [OF assms(2)] by (rule Filter_conflict)
      then show ?thesis
        using assms(1) Inr \<open>excludeSourcesBranch lib f fo1 = Return fo2\<close> Return
        by (simp add: setLints_def)
    next
      case (Exit msg)
      then show ?thesis
        using assms(1) Inr \<open>excludeSourcesBranch lib f fo1 = Return fo2\<close>
        by (simp add: setLints_def)
    next
      case Panic
      then show ?thesis using includeSourcesBranch_no_Panic by blast
    qed
  next
    case (Exit msg)
    then show ?thesis using assms(1) Inr by (simp add: setLints_def)
  next
    case Panic
    then show ?thesis using excludeSourcesBranch_no_Panic by blast
  qed
qed

text \<open>A name filter that compiles, with an include list: the error of the filter.\<close>

theorem setLints_conflicting_filters_witness:
  "nameFilter (noFlags\<lparr> nameFilter := ''e_'', includeNames := ''e_a, w_b'' \<rparr>) \<noteq> [] \<and>
   includeNames (noFlags\<lparr> nameFilter := ''e_'', includeNames := ''e_a, w_b'' \<rparr>) \<noteq> [] \<and>
   setLints exampleLibrary (noFlags\<lparr> nameFilter := ''e_'', includeNames := ''e_a, w_b'' \<rparr>) =
     Return (None, Some ''name filter used together with include or exclude names'')"
proof -
  let ?f = "noFlags\<lparr> nameFilter := ''e_'', includeNames := ''e_a, w_b'' \<rparr>"
  have n: "nameFilter ?f \<noteq> []" and i: "includeNames ?f \<noteq> [] \<or> excludeNames ?f \<noteq> []"
    by (simp_all add: noFlags_def)
  have val: "setLints exampleLibrary ?f =
      Return (None, Some ''name filter used together with include or exclude names'')"
    by (simp add: setLints_def compileNameFilter_def excludeSourcesBranch_def
          includeSourcesBranch_def exampleLibrary_def noFlags_def Filter_def
          namesBranches_def Let_def trimmedList_nonempty noFilterOptions_def)
  show ?thesis
    using n val setLints_conflicting_filters [OF n i, of exampleLibrary]
    by (simp add: noFlags_def)
qed

text \<open>
  Claim C7. When the value of the \<^verbatim>\<open>nameFilter\<close> flag does not compile (the library
  compiles the empty pattern, so the value is not empty), \<^verbatim>\<open>setLints\<close> returns a nil registry
  and the error of the compilation, prefixed, before it reads a source list or filters
  the registry. When the value compiles, the branch that compiles it returns no error:
  it leaves the options with the compiled expression as name filter (as they were when
  the flag is empty).
\<close>

theorem setLints_nameFilter:
  "(\<forall>e r0. Compile lib (nameFilter f) = Inl e \<longrightarrow> Compile lib [] = Inr r0 \<longrightarrow>
      setLints lib f = Return (None, Some (''bad -nameFilter: '' @ e))) \<and>
   (\<forall>r. Compile lib (nameFilter f) = Inr r \<longrightarrow>
      compileNameFilter lib f filterOpts =
        Inr (if nameFilter f = [] then filterOpts else filterOpts\<lparr> NameFilter := Some r \<rparr>))"
proof (intro conjI allI impI)
  fix e r0
  assume e: "Compile lib (nameFilter f) = Inl e" and r0: "Compile lib [] = Inr r0"
  then have "nameFilter f \<noteq> []" by auto
  then show "setLints lib f = Return (None, Some (''bad -nameFilter: '' @ e))"
    using e by (simp add: setLints_def compileNameFilter_def)
next
  fix r
  assume "Compile lib (nameFilter f) = Inr r"
  then show "compileNameFilter lib f filterOpts =
        Inr (if nameFilter f = [] then filterOpts else filterOpts\<lparr> NameFilter := Some r \<rparr>)"
    by (simp add: compileNameFilter_def)
qed

text \<open>A pattern that does not compile, and one that does.\<close>

theorem setLints_nameFilter_witness:
  "Compile exampleLibrary (nameFilter (noFlags\<lparr> nameFilter := ''['' \<rparr>)) = Inl ''missing closing ]'' \<and>
   Compile exampleLibrary [] = Inr [] \<and>
   setLints exampleLibrary (noFlags\<lparr> nameFilter := ''['' \<rparr>) =
     Return (None, Some ''bad -nameFilter: missing closing ]'') \<and>
   Compile exampleLibrary (nameFilter (noFlags\<lparr> nameFilter := ''e_'' \<rparr>)) = Inr ''e_'' \<and>
   compileNameFilter exampleLibrary (noFlags\<lparr> nameFilter := ''e_'' \<rparr>) noFilterOptions =
     Inr (noFilterOptions\<lparr> NameFilter := Some ''e_'' \<rparr>)"
proof -
  have a: "Compile exampleLibrary (nameFilter (noFlags\<lparr> nameFilter := ''['' \<rparr>)) = Inl ''missing closing ]''"
    and b: "Compile exampleLibrary [] = Inr []"
    and c: "Compile exampleLibrary (nameFilter (noFlags\<lparr> nameFilter := ''e_'' \<rparr>)) = Inr ''e_''"
    by (simp_all add: exampleLibrary_def noFlags_def)
  show ?thesis
    using a b c
      setLints_nameFilter [of exampleLibrary "noFlags\<lparr> nameFilter := ''['' \<rparr>" noFilterOptions]
      setLints_nameFilter [of exampleLibrary "noFlags\<lparr> nameFilter := ''e_'' \<rparr>" noFilterOptions]
    by (simp add: noFlags_def)
qed

section \<open>Properties of the lints\<close>

lemma TypeInName_iff: "TypeInName name oid \<longleftrightarrow> (\<exists>v \<in> set (Names name). Type v = oid)"
  by (simp add: TypeInName_def list_ex_iff)

text \<open>
  Claim C4. For every certificate, \<^verbatim>\<open>RunTest\<close> of the lint \<open>subject_postal_without_org\<close>
  returns the severity Error when the subject has a postalCode attribute and no
  organizationName attribute, and the severity Pass otherwise: when an organizationName
  attribute is present, and when no postalCode attribute is.
\<close>

theorem postalNoOrg_RunTest_spec:
  "postalNoOrg_RunTest cert =
     (if (\<exists>a \<in> set (Names (Subject cert)). Type a = PostalCodeOID) \<and>
         \<not> (\<exists>a \<in> set (Names (Subject cert)). Type a = OrganizationNameOID)
      then (\<lparr> Result = Error \<rparr>, None) else (\<lparr> Result = Pass \<rparr>, None))"
  by (simp add: postalNoOrg_RunTest_def TypeInName_iff)

text \<open>A postal code without an organization, with one, and an empty subject.\<close>

theorem postalNoOrg_RunTest_spec_witness:
  "postalNoOrg_RunTest exampleCert = (\<lparr> Result = Error \<rparr>, None) \<and>
   postalNoOrg_RunTest (exampleCert\<lparr> Subject :=
       \<lparr> Names = [\<lparr> Type = [2, 5, 4, 10], Value = ''University of Michigan'' \<rparr>,
                  \<lparr> Type = [2, 5, 4, 17], Value = ''48109'' \<rparr>] \<rparr> \<rparr>) = (\<lparr> Result = Pass \<rparr>, None) \<and>
   postalNoOrg_RunTest (exampleCert\<lparr> Subject := \<lparr> Names = [] \<rparr> \<rparr>) = (\<lparr> Result = Pass \<rparr>, None)"
  using postalNoOrg_RunTest_spec [of exampleCert]
    postalNoOrg_RunTest_spec [of "exampleCert\<lparr> Subject :=
       \<lparr> Names = [\<lparr> Type = [2, 5, 4, 10], Value = ''University of Michigan'' \<rparr>,
                  \<lparr> Type = [2, 5, 4, 17], Value = ''48109'' \<rparr>] \<rparr> \<rparr>"]
    postalNoOrg_RunTest_spec [of "exampleCert\<lparr> Subject := \<lparr> Names = [] \<rparr> \<rparr>"]
  by (simp add: exampleCert_def PostalCodeOID_def OrganizationNameOID_def)

subsection \<open>The calendar of the library is the civil calendar\<close>

lemma isLeap_leapYear: "isLeap y = leapYear y"
  by (simp add: isLeap_def leapYear_def dvd_eq_mod_eq_0)

lemma yearLen_yearLength: "yearLen y = yearLength y"
  by (simp add: yearLen_def yearLength_def isLeap_leapYear)

lemma yearLength_ge: "365 \<le> yearLength y" and yearLength_le: "yearLength y \<le> 366"
  by (simp_all add: yearLength_def)

lemma daysBeforeYear_step: "daysBeforeYear (y + 1) = daysBeforeYear y + yearLength y"
proof (cases "1970 \<le> y")
  case True
  then have "[1970..y] = [1970..y - 1] @ [y]" by (rule upto_rec2)
  moreover have "[y + 1..1969] = []" "[y..1969] = []" using True by simp_all
  ultimately show ?thesis by (simp add: daysBeforeYear_def)
next
  case False
  then have "[y..1969] = y # [y + 1..1969]" by (intro upto_rec1) simp
  moreover have "[1970..y] = []" "[1970..y - 1] = []" using False by simp_all
  ultimately show ?thesis by (simp add: daysBeforeYear_def)
qed

lemma daysBeforeYear_1970: "daysBeforeYear 1970 = 0"
  by (simp add: daysBeforeYear_def)

lemma daysBeforeYear_mono: "y < y' \<Longrightarrow> daysBeforeYear y + yearLength y \<le> daysBeforeYear y'"
proof (induction y' rule: int_gr_induct)
  case base
  then show ?case by (simp add: daysBeforeYear_step)
next
  case (step i)
  then show ?case using daysBeforeYear_step [of i] yearLength_ge [of i] by linarith
qed

lemma div_step:
  fixes y k :: int
  assumes "1 < k"
  shows "y div k = (y - 1) div k + (if k dvd y then 1 else 0)"
proof -
  define q where "q = (y - 1) div k"
  define r where "r = (y - 1) mod k"
  have y: "y = k * q + (r + 1)" and r: "0 \<le> r" "r < k"
    using assms by (simp_all add: q_def r_def)
  show ?thesis
  proof (cases "r + 1 = k")
    case True
    then have "y = k * (q + 1) + 0" using y by (simp add: algebra_simps)
    then have "y div k = q + 1" using assms by (intro int_div_pos_eq [of y k "q + 1" 0]) simp_all
    moreover have "k dvd y" using \<open>y = k * (q + 1) + 0\<close> by simp
    ultimately show ?thesis by (simp add: q_def)
  next
    case False
    then have lt: "r + 1 < k" using r by simp
    have "y div k = q" using y r lt by (intro int_div_pos_eq [of y k q "r + 1"]) simp_all
    moreover have "y mod k = r + 1" using y r lt by (intro int_mod_pos_eq [of y k q "r + 1"]) simp_all
    then have "\<not> k dvd y" using r by (simp add: dvd_eq_mod_eq_0)
    ultimately show ?thesis by (simp add: q_def)
  qed
qed

lemma daysSinceEpoch_step: "daysSinceEpoch (y + 1) = daysSinceEpoch y + yearLength y"
proof -
  define a4 a100 a400 where "a4 = (y - 1) div 4" and "a100 = (y - 1) div 100"
    and "a400 = (y - 1) div 400"
  define b4 b100 b400 where "b4 = y div 4" and "b100 = y div 100" and "b400 = y div 400"
  have d4: "b4 = a4 + (if 4 dvd y then 1 else 0)"
    unfolding a4_def b4_def by (rule div_step) simp
  have d100: "b100 = a100 + (if 100 dvd y then 1 else 0)"
    unfolding a100_def b100_def by (rule div_step) simp
  have d400: "b400 = a400 + (if 400 dvd y then 1 else 0)"
    unfolding a400_def b400_def by (rule div_step) simp
  have i1: "400 dvd y \<Longrightarrow> 100 dvd y" by (rule dvd_trans [of 100 400]) simp_all
  have i2: "100 dvd y \<Longrightarrow> 4 dvd y" by (rule dvd_trans [of 4 100]) simp_all
  have e1: "daysSinceEpoch (y + 1) = 365 * (y - 1969) + b4 - b100 + b400 - 477"
    by (simp add: daysSinceEpoch_def b4_def b100_def b400_def)
  have e2: "daysSinceEpoch y = 365 * (y - 1970) + a4 - a100 + a400 - 477"
    by (simp add: daysSinceEpoch_def a4_def a100_def a400_def)
  have "b4 - b100 + b400 = a4 - a100 + a400 + (if leapYear y then 1 else 0)"
    using d4 d100 d400 i1 i2 by (cases "4 dvd y"; cases "100 dvd y"; cases "400 dvd y")
      (simp_all add: leapYear_def)
  then show ?thesis unfolding e1 e2 yearLength_def by (simp split: if_splits)
qed

lemma daysSinceEpoch_1970: "daysSinceEpoch 1970 = 0"
  by (simp add: daysSinceEpoch_def)

lemma daysSinceEpoch_eq: "daysSinceEpoch y = daysBeforeYear y"
proof (induction y rule: int_induct [where k = 1970])
  case base
  then show ?case by (simp add: daysSinceEpoch_1970 daysBeforeYear_1970)
next
  case (step1 i)
  then show ?case by (simp add: daysSinceEpoch_step daysBeforeYear_step)
next
  case (step2 i)
  then show ?case
    using daysSinceEpoch_step [of "i - 1"] daysBeforeYear_step [of "i - 1"] by simp
qed

lemma month_cases:
  fixes m :: int
  assumes "1 \<le> m" and "m \<le> 12"
  obtains "m = 1" | "m = 2" | "m = 3" | "m = 4" | "m = 5" | "m = 6"
    | "m = 7" | "m = 8" | "m = 9" | "m = 10" | "m = 11" | "m = 12"
proof -
  have "[1..12] = [1, 2, 3, 4, 5, 6, 7, 8, 9, 10, 11, 12 :: int]" by code_simp
  moreover have "m \<in> set [1..12]" using assms by simp
  ultimately have "m = 1 \<or> m = 2 \<or> m = 3 \<or> m = 4 \<or> m = 5 \<or> m = 6 \<or>
      m = 7 \<or> m = 8 \<or> m = 9 \<or> m = 10 \<or> m = 11 \<or> m = 12"
    by (simp only: list.set insert_iff empty_iff) simp
  then show ?thesis using that by blast
qed

lemma daysBeforeMonth_step: "1 \<le> m \<Longrightarrow> daysBeforeMonth y (m + 1) = daysBeforeMonth y m + monthLength y m"
  using upto_rec2 [of 1 m] by (simp add: daysBeforeMonth_def)

lemma daysBeforeMonth_1: "daysBeforeMonth y 1 = 0"
  by (simp add: daysBeforeMonth_def)

lemma daysBeforeMonth_values:
  fixes y :: int
  defines "l \<equiv> (if leapYear y then 1 else 0)"
  shows "daysBeforeMonth y 2 = 31" "daysBeforeMonth y 3 = 59 + l" "daysBeforeMonth y 4 = 90 + l"
    "daysBeforeMonth y 5 = 120 + l" "daysBeforeMonth y 6 = 151 + l" "daysBeforeMonth y 7 = 181 + l"
    "daysBeforeMonth y 8 = 212 + l" "daysBeforeMonth y 9 = 243 + l" "daysBeforeMonth y 10 = 273 + l"
    "daysBeforeMonth y 11 = 304 + l" "daysBeforeMonth y 12 = 334 + l"
proof -
  show b2: "daysBeforeMonth y 2 = 31"
    using daysBeforeMonth_step [of 1 y] by (simp add: daysBeforeMonth_1 monthLength_def)
  show b3: "daysBeforeMonth y 3 = 59 + l"
    using daysBeforeMonth_step [of 2 y] b2 by (simp add: monthLength_def l_def)
  show b4: "daysBeforeMonth y 4 = 90 + l"
    using daysBeforeMonth_step [of 3 y] b3 by (simp add: monthLength_def)
  show b5: "daysBeforeMonth y 5 = 120 + l"
    using daysBeforeMonth_step [of 4 y] b4 by (simp add: monthLength_def)
  show b6: "daysBeforeMonth y 6 = 151 + l"
    using daysBeforeMonth_step [of 5 y] b5 by (simp add: monthLength_def)
  show b7: "daysBeforeMonth y 7 = 181 + l"
    using daysBeforeMonth_step [of 6 y] b6 by (simp add: monthLength_def)
  show b8: "daysBeforeMonth y 8 = 212 + l"
    using daysBeforeMonth_step [of 7 y] b7 by (simp add: monthLength_def)
  show b9: "daysBeforeMonth y 9 = 243 + l"
    using daysBeforeMonth_step [of 8 y] b8 by (simp add: monthLength_def)
  show b10: "daysBeforeMonth y 10 = 273 + l"
    using daysBeforeMonth_step [of 9 y] b9 by (simp add: monthLength_def)
  show b11: "daysBeforeMonth y 11 = 304 + l"
    using daysBeforeMonth_step [of 10 y] b10 by (simp add: monthLength_def)
  show "daysBeforeMonth y 12 = 334 + l"
    using daysBeforeMonth_step [of 11 y] b11 by (simp add: monthLength_def)
qed

lemma daysBeforeMonth_table:
  assumes "1 \<le> m" and "m \<le> 12"
  shows "daysBeforeMonth y m = daysBefore ! nat (m - 1) + (if leapYear y \<and> 3 \<le> m then 1 else 0)"
  using assms
  by (cases m rule: month_cases)
     (simp_all add: daysBeforeMonth_1 daysBeforeMonth_values daysBefore_def)

lemma monthLen_monthLength:
  assumes "1 \<le> m" and "m \<le> 12"
  shows "monthLen y m = monthLength y m"
  using assms
  by (cases m rule: month_cases)
     (simp_all add: monthLen_def monthLength_def daysBefore_def isLeap_leapYear)

lemma monthLength_ge: "28 \<le> monthLength y m" and monthLength_le: "monthLength y m \<le> 31"
  by (simp_all add: monthLength_def)

lemma daysBeforeMonth_mono:
  "m < m' \<Longrightarrow> 1 \<le> m \<Longrightarrow> daysBeforeMonth y m + monthLength y m \<le> daysBeforeMonth y m'"
proof (induction m' rule: int_gr_induct)
  case base
  then show ?case by (simp add: daysBeforeMonth_step)
next
  case (step i)
  then show ?case using daysBeforeMonth_step [of i y] monthLength_ge [of y i] by linarith
qed

lemma daysBeforeMonth_12: "daysBeforeMonth y 12 + monthLength y 12 = yearLength y"
  by (simp add: daysBeforeMonth_table daysBefore_def monthLength_def yearLength_def)

lemma daysBeforeMonth_nonneg: "1 \<le> m \<Longrightarrow> 0 \<le> daysBeforeMonth y m"
  using daysBeforeMonth_mono [of 1 m y] daysBeforeMonth_1 [of y] monthLength_ge [of y 1]
  by (cases "m = 1") auto

lemma dayOfYear_bound:
  assumes "1 \<le> m" and "m \<le> 12" and "1 \<le> d" and "d \<le> monthLength y m"
  shows "0 \<le> daysBeforeMonth y m + (d - 1)"
    and "daysBeforeMonth y m + (d - 1) < yearLength y"
proof -
  show "0 \<le> daysBeforeMonth y m + (d - 1)"
    using daysBeforeMonth_nonneg [OF assms(1), of y] assms(3) by simp
  have "daysBeforeMonth y m + monthLength y m \<le> daysBeforeMonth y 12 + monthLength y 12"
  proof (cases "m = 12")
    case True
    then show ?thesis by simp
  next
    case False
    then have "m < 12" using assms(2) by simp
    then show ?thesis
      using daysBeforeMonth_mono [OF _ assms(1), of 12 y] monthLength_ge [of y 12] by linarith
  qed
  then show "daysBeforeMonth y m + (d - 1) < yearLength y"
    using assms(4) daysBeforeMonth_12 [of y] by linarith
qed

lemma yearOfDay_inv:
  "yearOfDay y0 n = (y, r) \<Longrightarrow>
     daysBeforeYear y0 + n = daysBeforeYear y + r \<and> 0 \<le> r \<and> r < yearLength y"
proof (induction y0 n rule: yearOfDay.induct)
  case (1 year n)
  show ?case
  proof (cases "n < 0")
    case True
    then have "yearOfDay (year - 1) (n + yearLen (year - 1)) = (y, r)"
      using "1.prems" by (subst (asm) yearOfDay.simps) simp
    from "1.IH"(1) [OF True this] show ?thesis
      using daysBeforeYear_step [of "year - 1"] by (simp add: yearLen_yearLength)
  next
    case False
    show ?thesis
    proof (cases "yearLen year \<le> n")
      case True
      then have "yearOfDay (year + 1) (n - yearLen year) = (y, r)"
        using "1.prems" False by (subst (asm) yearOfDay.simps) simp
      from "1.IH"(2) [OF False True this] show ?thesis
        using daysBeforeYear_step [of year] by (simp add: yearLen_yearLength)
    next
      case nle: False
      then have "(year, n) = (y, r)"
        using "1.prems" False by (subst (asm) yearOfDay.simps) simp
      then show ?thesis using False nle by (auto simp: yearLen_yearLength)
    qed
  qed
qed

lemma monthOfDay_inv:
  "monthOfDay y m0 n = (m, d) \<Longrightarrow> 1 \<le> m0 \<Longrightarrow> m0 \<le> 12 \<Longrightarrow> 0 \<le> n \<Longrightarrow>
     daysBeforeMonth y m0 + n < yearLength y \<Longrightarrow>
     1 \<le> m \<and> m \<le> 12 \<and> 1 \<le> d \<and> d \<le> monthLength y m \<and>
     daysBeforeMonth y m0 + n = daysBeforeMonth y m + (d - 1)"
proof (induction y m0 n rule: monthOfDay.induct)
  case (1 year month n)
  show ?case
  proof (cases "month < 12 \<and> monthLen year month \<le> n")
    case True
    then have r: "monthOfDay year (month + 1) (n - monthLen year month) = (m, d)"
      using "1.prems"(1) by (subst (asm) monthOfDay.simps) simp
    have l: "monthLen year month = monthLength year month"
      using "1.prems"(2,3) by (rule monthLen_monthLength)
    have s: "daysBeforeMonth year (month + 1) = daysBeforeMonth year month + monthLength year month"
      using "1.prems"(2) by (rule daysBeforeMonth_step)
    have "1 \<le> m \<and> m \<le> 12 \<and> 1 \<le> d \<and> d \<le> monthLength year m \<and>
        daysBeforeMonth year (month + 1) + (n - monthLen year month) =
        daysBeforeMonth year m + (d - 1)"
      using True "1.prems"(2,5) l s by (intro "1.IH" [OF True r]) simp_all
    then show ?thesis using l s by simp
  next
    case False
    then have e: "m = month" "d = n + 1"
      using "1.prems"(1) by (subst (asm) monthOfDay.simps, simp)+
    have l: "monthLen year month = monthLength year month"
      using "1.prems"(2,3) by (rule monthLen_monthLength)
    have "n < monthLength year month"
    proof (cases "month < 12")
      case True
      then show ?thesis using False l by simp
    next
      case nlt: False
      then have "month = 12" using "1.prems"(3) by simp
      then show ?thesis using "1.prems"(5) daysBeforeMonth_12 [of year] by simp
    qed
    then show ?thesis using e "1.prems"(2,3,4) by simp
  qed
qed

lemma clock_split:
  fixes S :: int
  assumes "0 \<le> S" and "S < 86400"
  defines "h \<equiv> S div 3600" and "mi \<equiv> (S mod 3600) div 60" and "s \<equiv> S mod 60"
  shows "S = h * 3600 + mi * 60 + s"
    and "0 \<le> h" "h < 24" "0 \<le> mi" "mi < 60" "0 \<le> s" "s < 60"
proof -
  define r where "r = S mod 3600"
  have a: "S = 3600 * h + r" and r: "0 \<le> r" "r < 3600"
    by (simp_all add: h_def r_def)
  have "r mod 60 = s"
    unfolding r_def s_def by (rule mod_mod_cancel) simp
  then have b: "r = 60 * mi + s"
    unfolding mi_def r_def [symmetric] by (metis mult_div_mod_eq)
  show "S = h * 3600 + mi * 60 + s" using a b by simp
  show "0 \<le> s" "s < 60" by (simp_all add: s_def)
  show "0 \<le> mi" "mi < 60" using r b \<open>0 \<le> s\<close> \<open>s < 60\<close> by linarith+
  show "0 \<le> h" "h < 24" using a r assms(1,2) by linarith+
qed

lemma clock_unique:
  fixes h mi s :: int
  assumes "0 \<le> h" "h < 24" "0 \<le> mi" "mi < 60" "0 \<le> s" "s < 60"
  defines "S \<equiv> h * 3600 + mi * 60 + s"
  shows "0 \<le> S" "S < 86400" "S div 3600 = h" "(S mod 3600) div 60 = mi" "S mod 60 = s"
proof -
  show "0 \<le> S" "S < 86400" using assms(1-6) by (simp_all add: S_def)
  have r: "0 \<le> mi * 60 + s" "mi * 60 + s < 3600" using assms(3-6) by simp_all
  have e: "S = 3600 * h + (mi * 60 + s)" by (simp add: S_def)
  show "S div 3600 = h" using e r by (rule int_div_pos_eq)
  have m: "S mod 3600 = mi * 60 + s" using e r by (rule int_mod_pos_eq)
  have e2: "mi * 60 + s = 60 * mi + s" by simp
  show "(S mod 3600) div 60 = mi" unfolding m using e2 assms(5,6) by (rule int_div_pos_eq)
  have "S = 60 * (h * 60 + mi) + s" by (simp add: S_def)
  then show "S mod 60 = s" using assms(5,6) by (rule int_mod_pos_eq)
qed

lemma day_unique:
  fixes N S :: int
  assumes "0 \<le> S" "S < 86400"
  shows "(N * 86400 + S) div 86400 = N" "(N * 86400 + S) mod 86400 = S"
proof -
  have e: "N * 86400 + S = 86400 * N + S" by simp
  show "(N * 86400 + S) div 86400 = N" using e assms by (rule int_div_pos_eq)
  show "(N * 86400 + S) mod 86400 = S" using e assms by (rule int_mod_pos_eq)
qed

text \<open>Decoding gives a valid civil reading.\<close>

lemma decode_valid:
  assumes "dateOf t = (y, m, d)" and "clockOf t = (h, mi, s)"
  shows "validCivil y m d h mi s \<and> absSec t = civilSeconds y m d h mi s"
proof -
  define N where "N = absSec t div 86400"
  define S where "S = absSec t mod 86400"
  have S: "0 \<le> S" "S < 86400" by (simp_all add: S_def)
  have A: "absSec t = N * 86400 + S" by (simp add: N_def S_def)
  obtain yy r where yr: "yearOfDay 1970 N = (yy, r)" by (cases "yearOfDay 1970 N")
  obtain mm dd where md: "monthOfDay yy 1 r = (mm, dd)" by (cases "monthOfDay yy 1 r")
  have ymd: "y = yy" "m = mm" "d = dd"
    using assms(1) yr md by (simp_all add: dateOf_def N_def)
  have hms: "h = S div 3600" "mi = (S mod 3600) div 60" "s = S mod 60"
    using assms(2) by (simp_all add: clockOf_def S_def Let_def)
  from yearOfDay_inv [OF yr]
  have y1: "N = daysBeforeYear yy + r" and y2: "0 \<le> r" "r < yearLength yy"
    by (simp_all add: daysBeforeYear_1970)
  from monthOfDay_inv [OF md] y2
  have m1: "1 \<le> mm" "mm \<le> 12" "1 \<le> dd" "dd \<le> monthLength yy mm"
    and m2: "r = daysBeforeMonth yy mm + (dd - 1)"
    by (simp_all add: daysBeforeMonth_1)
  have c: "S = h * 3600 + mi * 60 + s" "0 \<le> h" "h < 24" "0 \<le> mi" "mi < 60" "0 \<le> s" "s < 60"
    unfolding hms using S by (rule clock_split)+
  have "validCivil y m d h mi s" using m1 c(2-) by (simp add: validCivil_def ymd)
  moreover have "absSec t = civilSeconds y m d h mi s"
    unfolding A civilSeconds_def ymd using y1 m2 c(1) by simp
  ultimately show ?thesis ..
qed

text \<open>A valid civil reading is unique.\<close>

lemma civil_unique:
  assumes v: "validCivil y m d h mi s" and v': "validCivil y' m' d' h' mi' s'"
    and e: "civilSeconds y m d h mi s = civilSeconds y' m' d' h' mi' s'"
  shows "y = y' \<and> m = m' \<and> d = d' \<and> h = h' \<and> mi = mi' \<and> s = s'"
proof -
  define r where "r = daysBeforeMonth y m + (d - 1)"
  define r' where "r' = daysBeforeMonth y' m' + (d' - 1)"
  define S where "S = h * 3600 + mi * 60 + s"
  define S' where "S' = h' * 3600 + mi' * 60 + s'"
  have b: "0 \<le> h" "h < 24" "0 \<le> mi" "mi < 60" "0 \<le> s" "s < 60"
    and md: "1 \<le> m" "m \<le> 12" "1 \<le> d" "d \<le> monthLength y m"
    using v by (simp_all add: validCivil_def)
  have b': "0 \<le> h'" "h' < 24" "0 \<le> mi'" "mi' < 60" "0 \<le> s'" "s' < 60"
    and md': "1 \<le> m'" "m' \<le> 12" "1 \<le> d'" "d' \<le> monthLength y' m'"
    using v' by (simp_all add: validCivil_def)
  have S: "0 \<le> S" "S < 86400" unfolding S_def using b by (rule clock_unique)+
  have S': "0 \<le> S'" "S' < 86400" unfolding S'_def using b' by (rule clock_unique)+
  have E: "(daysBeforeYear y + r) * 86400 + S = (daysBeforeYear y' + r') * 86400 + S'"
    using e by (simp add: civilSeconds_def r_def r'_def S_def S'_def)
  have N: "daysBeforeYear y + r = daysBeforeYear y' + r'"
    using day_unique(1) [OF S, of "daysBeforeYear y + r"]
      day_unique(1) [OF S', of "daysBeforeYear y' + r'"] E by simp
  then have SS: "S = S'" using E by simp
  have h: "h = h'"
    using clock_unique(3) [OF b] clock_unique(3) [OF b'] SS by (simp add: S_def S'_def)
  have mi: "mi = mi'"
    using clock_unique(4) [OF b] clock_unique(4) [OF b'] SS by (simp add: S_def S'_def)
  have s: "s = s'"
    using clock_unique(5) [OF b] clock_unique(5) [OF b'] SS by (simp add: S_def S'_def)
  have r: "0 \<le> r" "r < yearLength y"
    unfolding r_def using md by (rule dayOfYear_bound)+
  have r': "0 \<le> r'" "r' < yearLength y'"
    unfolding r'_def using md' by (rule dayOfYear_bound)+
  have y: "y = y'"
  proof (rule ccontr)
    assume "y \<noteq> y'"
    then consider "y < y'" | "y' < y" by linarith
    then show False
    proof cases
      case 1
      then show False using daysBeforeYear_mono [of y y'] N r r' by linarith
    next
      case 2
      then show False using daysBeforeYear_mono [of y' y] N r r' by linarith
    qed
  qed
  have R: "daysBeforeMonth y m + (d - 1) = daysBeforeMonth y m' + (d' - 1)"
    using N y by (simp add: r_def r'_def)
  have m: "m = m'"
  proof (rule ccontr)
    assume "m \<noteq> m'"
    then consider "m < m'" | "m' < m" by linarith
    then show False
    proof cases
      case 1
      then show False using daysBeforeMonth_mono [of m m' y] R md md' by linarith
    next
      case 2
      moreover have "d' \<le> monthLength y m'" using md'(4) y by simp
      ultimately show False using daysBeforeMonth_mono [of m' m y] R md md'(1-3) by linarith
    qed
  qed
  have "d = d'" using R m by simp
  then show ?thesis using y m h mi s by simp
qed

lemma read_civil:
  assumes "validCivil y m d h mi s" and "absSec t = civilSeconds y m d h mi s"
  shows "dateOf t = (y, m, d)" and "clockOf t = (h, mi, s)"
proof -
  obtain y' m' d' where a: "dateOf t = (y', m', d')" by (cases "dateOf t")
  obtain h' mi' s' where b: "clockOf t = (h', mi', s')" by (cases "clockOf t")
  from decode_valid [OF a b]
  have "validCivil y' m' d' h' mi' s'" and "absSec t = civilSeconds y' m' d' h' mi' s'"
    by simp_all
  with assms have "y' = y \<and> m' = m \<and> d' = d \<and> h' = h \<and> mi' = mi \<and> s' = s"
    by (intro civil_unique) simp_all
  then show "dateOf t = (y, m, d)" and "clockOf t = (h, mi, s)" using a b by simp_all
qed

lemma Date_civil:
  assumes "0 \<le> h" "h < 24" "0 \<le> mi" "mi < 60" "0 \<le> s" "s < 60"
    and "0 \<le> ns" "ns < 1000000000"
  shows "Date year month day h mi s ns l =
     \<lparr> unixSec = instantOf l
         (civilSeconds (year + (month - 1) div 12) ((month - 1) mod 12 + 1) day h mi s),
       nsec = ns, loc = l \<rparr>"
proof -
  define m0 where "m0 = (month - 1) mod 12"
  define y where "y = year + (month - 1) div 12"
  have m0: "0 \<le> m0" "m0 < 12" by (simp_all add: m0_def)
  then have m1: "1 \<le> m0 + 1" "m0 + 1 \<le> 12" by simp_all
  have t: "daysBefore ! nat m0 + (if isLeap y \<and> 2 \<le> m0 then 1 else 0) =
      daysBeforeMonth y (m0 + 1)"
    using daysBeforeMonth_table [OF m1, of y] by (simp add: isLeap_leapYear)
  have z: "ns div 1000000000 = 0" "ns mod 1000000000 = ns" "s div 60 = 0" "s mod 60 = s"
    "mi div 60 = 0" "mi mod 60 = mi" "h div 24 = 0" "h mod 24 = h"
    using assms by simp_all
  have "daysSinceEpoch y + daysBefore ! nat m0 + (if isLeap y \<and> 2 \<le> m0 then 1 else 0) =
      daysBeforeYear y + daysBeforeMonth y (m0 + 1)"
    using t by (simp add: daysSinceEpoch_eq)
  then show ?thesis
    unfolding Date_def Let_def m0_def [symmetric] y_def [symmetric]
    by (simp add: z civilSeconds_def)
qed

lemma AddDate_civil:
  assumes "validCivil y m d h mi s" and "absSec t = civilSeconds y m d h mi s"
    and "0 \<le> nsec t" "nsec t < 1000000000"
  shows "AddDate years months days t =
     \<lparr> unixSec = instantOf (loc t)
         (civilSeconds (y + years + (m + months - 1) div 12) ((m + months - 1) mod 12 + 1)
            (d + days) h mi s),
       nsec = nsec t, loc = loc t \<rparr>"
proof -
  have b: "0 \<le> h" "h < 24" "0 \<le> mi" "mi < 60" "0 \<le> s" "s < 60"
    using assms(1) by (simp_all add: validCivil_def)
  show ?thesis
    using read_civil [OF assms(1,2)] Date_civil [OF b assms(3,4)]
    by (simp add: AddDate_def)
qed

lemma months_27:
  fixes m :: int
  shows "(m + 3 - 1) mod 12 = (m + 26) mod 12" and "2 + (m + 3 - 1) div 12 = (m + 26) div 12"
proof -
  have e: "m + 26 = (m + 3 - 1) + 12 * 2" by simp
  show "(m + 3 - 1) mod 12 = (m + 26) mod 12" by (simp only: e mod_mult_self2)
  have "(m + 3 - 1 + 12 * 2) div 12 = 2 + (m + 3 - 1) div 12"
    by (rule div_mult_self2) simp
  then show "2 + (m + 3 - 1) div 12 = (m + 26) div 12" by (simp only: e)
qed

lemma AddDate_27_months:
  assumes "reads t y m d h mi s" and "0 \<le> nsec t" and "nsec t < 1000000000"
  shows "AddDate 2 3 0 t =
     \<lparr> unixSec = instantOf (loc t)
         (civilSeconds (y + (m + 26) div 12) ((m + 26) mod 12 + 1) d h mi s),
       nsec = nsec t, loc = loc t \<rparr>"
proof -
  have v: "validCivil y m d h mi s" and a: "absSec t = civilSeconds y m d h mi s"
    using assms(1) by (simp_all add: reads_def absSec_def)
  have e1: "y + 2 + (m + 3 - 1) div 12 = y + (m + 26) div 12"
    by (simp only: add.assoc months_27(2))
  have e2: "d + 0 = d" by simp
  show ?thesis
    using AddDate_civil [OF v a assms(2,3), of 2 3 0]
    by (simp only: e1 e2 months_27(1))
qed

lemma civilSeconds_2020_01_01: "civilSeconds 2020 1 1 0 0 0 = 1577836800"
  by code_simp

lemma civilSeconds_2022_03_01: "civilSeconds 2022 3 1 0 0 0 = 1646092800"
  by code_simp

lemma civilSeconds_2022_04_01: "civilSeconds 2022 4 1 0 0 0 = 1648771200"
  by code_simp

lemma civilSeconds_2022_06_01: "civilSeconds 2022 6 1 0 0 0 = 1654041600"
  by code_simp

text \<open>
  Claim C5. For every certificate to which the lint \<open>ev_valid_time_too_long\<close> applies,
  \<^verbatim>\<open>RunTest\<close> returns the severity Error when \<open>notAfter\<close> is later than \<open>notBefore\<close> plus 27
  months, and Pass otherwise. The clock of the Location of \<open>notBefore\<close> reads a civil
  time at \<open>notBefore\<close>, and for every civil time that it reads there, \<open>notBefore\<close> plus 27
  months is the instant at which a clock of that Location reads the same day of the
  month and the same time of the day 27 months later on the civil calendar, a day past
  the end of that month counting on into the next (the nanoseconds of a time are those of a second, 0 to 999999999). With
  \<open>notBefore\<close> 2020-01-01, \<open>notAfter\<close> 2022-06-01 gives Error and \<open>notAfter\<close>
  2022-03-01 gives Pass, the three at midnight of one fixed zone.
\<close>

theorem evValidTooLong_RunTest_spec:
  assumes "evValidTooLong_CheckApplies evoids c"
    and "0 \<le> nsec (NotBefore c)" and "nsec (NotBefore c) < 1000000000"
  shows "(\<exists>y m d h mi s. reads (NotBefore c) y m d h mi s) \<and>
    (\<forall>y m d h mi s. reads (NotBefore c) y m d h mi s \<longrightarrow>
       evValidTooLong_RunTest c =
         (let limit = instantOf (loc (NotBefore c))
                (civilSeconds (y + (m + 26) div 12) ((m + 26) mod 12 + 1) d h mi s)
          in if limit < unixSec (NotAfter c) \<or>
                (limit = unixSec (NotAfter c) \<and> nsec (NotBefore c) < nsec (NotAfter c))
             then (\<lparr> Result = Error \<rparr>, None) else (\<lparr> Result = Pass \<rparr>, None))) \<and>
    (loc (NotBefore c) = FixedZone off \<longrightarrow>
     unixSec (NotBefore c) = civilSeconds 2020 1 1 0 0 0 - off \<longrightarrow>
       (unixSec (NotAfter c) = civilSeconds 2022 6 1 0 0 0 - off \<longrightarrow>
          evValidTooLong_RunTest c = (\<lparr> Result = Error \<rparr>, None)) \<and>
       (unixSec (NotAfter c) = civilSeconds 2022 3 1 0 0 0 - off \<longrightarrow>
          evValidTooLong_RunTest c = (\<lparr> Result = Pass \<rparr>, None)))"
proof -
  let ?nb = "NotBefore c"
  have ex: "\<exists>y m d h mi s. reads ?nb y m d h mi s"
  proof -
    obtain y m d where a: "dateOf ?nb = (y, m, d)" by (cases "dateOf ?nb")
    obtain h mi s where b: "clockOf ?nb = (h, mi, s)" by (cases "clockOf ?nb")
    from decode_valid [OF a b] have "reads ?nb y m d h mi s"
      by (simp add: reads_def absSec_def)
    then show ?thesis by blast
  qed
  have gen: "evValidTooLong_RunTest c =
         (let limit = instantOf (loc ?nb)
                (civilSeconds (y + (m + 26) div 12) ((m + 26) mod 12 + 1) d h mi s)
          in if limit < unixSec (NotAfter c) \<or>
                (limit = unixSec (NotAfter c) \<and> nsec ?nb < nsec (NotAfter c))
             then (\<lparr> Result = Error \<rparr>, None) else (\<lparr> Result = Pass \<rparr>, None))"
    if "reads ?nb y m d h mi s" for y m d h mi s
    using AddDate_27_months [OF that assms(2,3)]
    by (simp add: evValidTooLong_RunTest_def Before_def Let_def)
  have dated: "(unixSec (NotAfter c) = civilSeconds 2022 6 1 0 0 0 - off \<longrightarrow>
          evValidTooLong_RunTest c = (\<lparr> Result = Error \<rparr>, None)) \<and>
       (unixSec (NotAfter c) = civilSeconds 2022 3 1 0 0 0 - off \<longrightarrow>
          evValidTooLong_RunTest c = (\<lparr> Result = Pass \<rparr>, None))"
    if l: "loc ?nb = FixedZone off" and u: "unixSec ?nb = civilSeconds 2020 1 1 0 0 0 - off"
  proof -
    have "validCivil 2020 1 1 0 0 0" by (simp add: validCivil_def monthLength_def)
    then have r: "reads ?nb 2020 1 1 0 0 0" using l u by (simp add: reads_def FixedZone_def)
    have "(2020 :: int) + (1 + 26) div 12 = 2022" and "((1 :: int) + 26) mod 12 + 1 = 4"
      by simp_all
    with gen [OF r] l have "evValidTooLong_RunTest c =
        (if 1648771200 - off < unixSec (NotAfter c) \<or>
            (1648771200 - off = unixSec (NotAfter c) \<and> nsec ?nb < nsec (NotAfter c))
         then (\<lparr> Result = Error \<rparr>, None) else (\<lparr> Result = Pass \<rparr>, None))"
      by (simp add: Let_def FixedZone_def civilSeconds_2022_04_01)
    then show ?thesis
      by (simp add: civilSeconds_2022_06_01 civilSeconds_2022_03_01)
  qed
  from ex gen dated show ?thesis by blast
qed

text \<open>
  The two certificates of the claim in UTC, and the second example: in the zone -05:00
  the 27 months from January 31 end on May 1 at 20:00, that is on May 2 at 01:00 in UTC,
  after \<open>notAfter\<close>; read in UTC the same instant is February 1 at 01:00, and the 27
  months end on May 1 at 01:00, before \<open>notAfter\<close>.
\<close>

theorem evValidTooLong_RunTest_spec_witness:
  "evValidTooLong_CheckApplies [[2, 23, 140, 1, 1]] exampleCert \<and>
   evValidTooLong_RunTest exampleCert = (\<lparr> Result = Error \<rparr>, None) \<and>
   evValidTooLong_RunTest (exampleCert\<lparr> NotAfter := Date 2022 3 1 0 0 0 0 UTC \<rparr>) =
     (\<lparr> Result = Pass \<rparr>, None) \<and>
   reads (NotBefore (zoneCert (FixedZone (- 18000)))) 2020 1 31 20 0 0 \<and>
   evValidTooLong_RunTest (zoneCert (FixedZone (- 18000))) = (\<lparr> Result = Pass \<rparr>, None) \<and>
   reads (NotBefore (zoneCert UTC)) 2020 2 1 1 0 0 \<and>
   evValidTooLong_RunTest (zoneCert UTC) = (\<lparr> Result = Error \<rparr>, None)"
proof -
  let ?c = "exampleCert\<lparr> NotAfter := Date 2022 3 1 0 0 0 0 UTC \<rparr>"
  have a: "evValidTooLong_CheckApplies [[2, 23, 140, 1, 1]] exampleCert"
    and a': "evValidTooLong_CheckApplies [[2, 23, 140, 1, 1]] ?c"
    and a5: "evValidTooLong_CheckApplies [[2, 23, 140, 1, 1]] (zoneCert (FixedZone (- 18000)))"
    and a0: "evValidTooLong_CheckApplies [[2, 23, 140, 1, 1]] (zoneCert UTC)"
    by (simp_all add: evValidTooLong_CheckApplies_def IsEv_def exampleCert_def zoneCert_def)
  have n: "0 \<le> nsec (NotBefore exampleCert)" "nsec (NotBefore exampleCert) < 1000000000"
    and n': "0 \<le> nsec (NotBefore ?c)" "nsec (NotBefore ?c) < 1000000000"
    by (simp_all add: exampleCert_def Date_def Let_def)
  have l: "loc (NotBefore exampleCert) = FixedZone 0" "loc (NotBefore ?c) = FixedZone 0"
    by (simp_all add: exampleCert_def Date_def Let_def UTC_def)
  have u: "unixSec (NotBefore exampleCert) = civilSeconds 2020 1 1 0 0 0 - 0"
    "unixSec (NotBefore ?c) = civilSeconds 2020 1 1 0 0 0 - 0"
    "unixSec (NotAfter exampleCert) = civilSeconds 2022 6 1 0 0 0 - 0"
    "unixSec (NotAfter ?c) = civilSeconds 2022 3 1 0 0 0 - 0"
    by code_simp+
  have r1: "evValidTooLong_RunTest exampleCert = (\<lparr> Result = Error \<rparr>, None)"
    using evValidTooLong_RunTest_spec [OF a n, of 0] l(1) u(1,3) by blast
  have r2: "evValidTooLong_RunTest ?c = (\<lparr> Result = Pass \<rparr>, None)"
    using evValidTooLong_RunTest_spec [OF a' n', of 0] l(2) u(2,4) by blast
  have z5: "reads (NotBefore (zoneCert (FixedZone (- 18000)))) 2020 1 31 20 0 0"
    and z0: "reads (NotBefore (zoneCert UTC)) 2020 2 1 1 0 0"
    by code_simp+
  have n5: "0 \<le> nsec (NotBefore (zoneCert (FixedZone (- 18000))))"
    "nsec (NotBefore (zoneCert (FixedZone (- 18000)))) < 1000000000"
    and n0: "0 \<le> nsec (NotBefore (zoneCert UTC))" "nsec (NotBefore (zoneCert UTC)) < 1000000000"
    by (simp_all add: zoneCert_def)
  have c5: "civilSeconds 2022 4 31 20 0 0 = 1651435200"
    and c0: "civilSeconds 2022 5 1 1 0 0 = 1651366800"
    by code_simp+
  have r5: "evValidTooLong_RunTest (zoneCert (FixedZone (- 18000))) = (\<lparr> Result = Pass \<rparr>, None)"
    using evValidTooLong_RunTest_spec [OF a5 n5, of 0] z5
    by (simp add: c5 Let_def zoneCert_def FixedZone_def)
  have r0: "evValidTooLong_RunTest (zoneCert UTC) = (\<lparr> Result = Error \<rparr>, None)"
    using evValidTooLong_RunTest_spec [OF a0 n0, of 0] z0
    by (simp add: c0 Let_def zoneCert_def FixedZone_def UTC_def)
  show ?thesis using a r1 r2 z5 r5 z0 r0 by blast
qed

lemma GetExtFromCert_Some:
  assumes "IsExtInCert cert oid"
  shows "\<exists>ski. GetExtFromCert cert oid = Some ski \<and> ski \<in> set (Extensions cert) \<and> Id ski = oid"
proof -
  from assms obtain ski where s: "find (\<lambda>e. Id e = oid) (Extensions cert) = Some ski"
    by (auto simp: IsExtInCert_def GetExtFromCert_def)
  then have "ski \<in> set (Extensions cert) \<and> Id ski = oid" by (rule find_Some_holds)
  with s show ?thesis by (simp add: GetExtFromCert_def)
qed

lemma IsExtInCert_iff: "IsExtInCert cert oid \<longleftrightarrow> (\<exists>e \<in> set (Extensions cert). Id e = oid)"
  by (simp add: IsExtInCert_def GetExtFromCert_def find_None_iff Bex_def)

text \<open>
  Claim C9, amended. \<^verbatim>\<open>Initialize\<close> of the three lints returns nil. For every certificate,
  \<^verbatim>\<open>RunTest\<close> of \<open>postalNoOrg\<close> and of \<open>evValidTooLong\<close> returns a nil error and the severity
  Pass or Error. For every certificate to which \<open>SubCANameConstraintsNotCritical\<close>
  applies, its \<^verbatim>\<open>RunTest\<close> returns a nil error and the severity Pass or Warn; it panics
  exactly on the certificates without a nameConstraints extension, to which the lint does
  not apply.
\<close>

theorem lints_results_when_applicable:
  "postalNoOrg_Initialize = None \<and> evValidTooLong_Initialize = None \<and>
   SubCANameConstraintsNotCritical_Initialize = None \<and>
   (postalNoOrg_RunTest cert = (\<lparr> Result = Pass \<rparr>, None) \<or>
    postalNoOrg_RunTest cert = (\<lparr> Result = Error \<rparr>, None)) \<and>
   (evValidTooLong_RunTest cert = (\<lparr> Result = Pass \<rparr>, None) \<or>
    evValidTooLong_RunTest cert = (\<lparr> Result = Error \<rparr>, None)) \<and>
   (SubCANameConstraintsNotCritical_CheckApplies IsSubCA cert \<longrightarrow>
      SubCANameConstraintsNotCritical_RunTest cert = Return (\<lparr> Result = Pass \<rparr>, None) \<or>
      SubCANameConstraintsNotCritical_RunTest cert = Return (\<lparr> Result = Warn \<rparr>, None)) \<and>
   (SubCANameConstraintsNotCritical_RunTest cert = Panic \<longleftrightarrow>
      \<not> (\<exists>e \<in> set (Extensions cert). Id e = NameConstOID))"
proof -
  have "IsExtInCert cert NameConstOID \<Longrightarrow>
      SubCANameConstraintsNotCritical_RunTest cert = Return (\<lparr> Result = Pass \<rparr>, None) \<or>
      SubCANameConstraintsNotCritical_RunTest cert = Return (\<lparr> Result = Warn \<rparr>, None)"
    by (auto simp: SubCANameConstraintsNotCritical_RunTest_def dest!: GetExtFromCert_Some
          split: if_splits)
  moreover have "SubCANameConstraintsNotCritical_RunTest cert = Panic \<longleftrightarrow>
      \<not> (\<exists>e \<in> set (Extensions cert). Id e = NameConstOID)"
    using IsExtInCert_iff [of cert NameConstOID]
    by (auto simp: SubCANameConstraintsNotCritical_RunTest_def IsExtInCert_def split: option.splits)
  ultimately show ?thesis
    by (simp add: postalNoOrg_Initialize_def evValidTooLong_Initialize_def
          SubCANameConstraintsNotCritical_Initialize_def postalNoOrg_RunTest_def
          evValidTooLong_RunTest_def SubCANameConstraintsNotCritical_CheckApplies_def)
qed

text \<open>The example has name constraints that are not critical.\<close>

theorem lints_results_when_applicable_witness:
  "SubCANameConstraintsNotCritical_CheckApplies (\<lambda>c. True) exampleCert \<and>
   SubCANameConstraintsNotCritical_RunTest exampleCert = Return (\<lparr> Result = Warn \<rparr>, None) \<and>
   postalNoOrg_RunTest exampleCert = (\<lparr> Result = Error \<rparr>, None)"
proof -
  have a: "SubCANameConstraintsNotCritical_CheckApplies (\<lambda>c. True) exampleCert"
    by (simp add: SubCANameConstraintsNotCritical_CheckApplies_def IsExtInCert_def
          GetExtFromCert_def exampleCert_def NameConstOID_def)
  have b: "SubCANameConstraintsNotCritical_RunTest exampleCert \<noteq> Return (\<lparr> Result = Pass \<rparr>, None)"
    by (simp add: SubCANameConstraintsNotCritical_RunTest_def
          GetExtFromCert_def exampleCert_def NameConstOID_def)
  have c: "postalNoOrg_RunTest exampleCert \<noteq> (\<lparr> Result = Pass \<rparr>, None)"
    by (simp add: postalNoOrg_RunTest_def TypeInName_def exampleCert_def
          PostalCodeOID_def OrganizationNameOID_def)
  show ?thesis
    using a b c lints_results_when_applicable [of exampleCert "\<lambda>c. True"] by blast
qed

text \<open>
  Claim C9 as it stands fails: on a certificate without the nameConstraints extension
  \<^verbatim>\<open>RunTest\<close> of \<open>SubCANameConstraintsNotCritical\<close> returns nothing.
\<close>

theorem SubCA_RunTest_panics_counterexample:
  "SubCANameConstraintsNotCritical_RunTest (exampleCert\<lparr> Extensions := [] \<rparr>) = Panic \<and>
   SubCANameConstraintsNotCritical_RunTest
     (exampleCert\<lparr> Extensions := [\<lparr> Id = [2, 5, 29, 19], Critical = True \<rparr>] \<rparr>) = Panic"
  by (simp add: SubCANameConstraintsNotCritical_RunTest_def GetExtFromCert_def
        exampleCert_def NameConstOID_def)

text \<open>
  Claim C10. The lint \<open>sub_ca_name_constraints_not_critical\<close> applies to a certificate if
  and only if it is a subordinate CA certificate and has a nameConstraints extension.
  For every certificate to which it applies, \<^verbatim>\<open>RunTest\<close> returns the severity Pass if that
  extension (the first with this identifier) is marked critical, and Warn if it is not.
\<close>

theorem SubCANameConstraintsNotCritical_spec:
  "(SubCANameConstraintsNotCritical_CheckApplies IsSubCA cert \<longleftrightarrow>
      IsSubCA cert \<and> (\<exists>e \<in> set (Extensions cert). Id e = NameConstOID)) \<and>
   (SubCANameConstraintsNotCritical_CheckApplies IsSubCA cert \<longrightarrow>
      (\<exists>ski \<in> set (Extensions cert). Id ski = NameConstOID \<and>
         find (\<lambda>e. Id e = NameConstOID) (Extensions cert) = Some ski \<and>
         SubCANameConstraintsNotCritical_RunTest cert =
           (if Critical ski then Return (\<lparr> Result = Pass \<rparr>, None)
            else Return (\<lparr> Result = Warn \<rparr>, None))))"
proof -
  have "IsExtInCert cert NameConstOID \<Longrightarrow>
      \<exists>ski \<in> set (Extensions cert). Id ski = NameConstOID \<and>
         find (\<lambda>e. Id e = NameConstOID) (Extensions cert) = Some ski \<and>
         SubCANameConstraintsNotCritical_RunTest cert =
           (if Critical ski then Return (\<lparr> Result = Pass \<rparr>, None)
            else Return (\<lparr> Result = Warn \<rparr>, None))"
    using GetExtFromCert_Some [of cert NameConstOID]
    by (auto simp: SubCANameConstraintsNotCritical_RunTest_def GetExtFromCert_def)
  then show ?thesis
    by (simp add: SubCANameConstraintsNotCritical_CheckApplies_def IsExtInCert_iff)
qed

text \<open>Name constraints that are not critical, that are, and certificates out of scope.\<close>

theorem SubCANameConstraintsNotCritical_spec_witness:
  "SubCANameConstraintsNotCritical_CheckApplies (\<lambda>c. True) exampleCert \<and>
   SubCANameConstraintsNotCritical_RunTest exampleCert = Return (\<lparr> Result = Warn \<rparr>, None) \<and>
   SubCANameConstraintsNotCritical_CheckApplies (\<lambda>c. True)
     (exampleCert\<lparr> Extensions := [\<lparr> Id = [2, 5, 29, 30], Critical = True \<rparr>] \<rparr>) \<and>
   SubCANameConstraintsNotCritical_RunTest
     (exampleCert\<lparr> Extensions := [\<lparr> Id = [2, 5, 29, 30], Critical = True \<rparr>] \<rparr>) =
       Return (\<lparr> Result = Pass \<rparr>, None) \<and>
   \<not> SubCANameConstraintsNotCritical_CheckApplies (\<lambda>c. False) exampleCert \<and>
   \<not> SubCANameConstraintsNotCritical_CheckApplies (\<lambda>c. True) (exampleCert\<lparr> Extensions := [] \<rparr>)"
  using SubCANameConstraintsNotCritical_spec [of "\<lambda>c. True" exampleCert]
    SubCANameConstraintsNotCritical_spec [of "\<lambda>c. True"
      "exampleCert\<lparr> Extensions := [\<lparr> Id = [2, 5, 29, 30], Critical = True \<rparr>] \<rparr>"]
    SubCANameConstraintsNotCritical_spec [of "\<lambda>c. False" exampleCert]
    SubCANameConstraintsNotCritical_spec [of "\<lambda>c. True" "exampleCert\<lparr> Extensions := [] \<rparr>"]
  by (simp add: exampleCert_def NameConstOID_def)

end
